theory Spec2Isabelle
  imports Main "HOL-Library.Monad_Syntax"
begin

section \<open>Strings of UTF-16 code units\<close>

text \<open>
  A JavaScript string is a sequence of UTF-16 code units. The converter compares
  code units only (it does no arithmetic on them), so a code unit is a \<open>nat\<close> and a
  string is a list of them. ASCII literals are written through \<open>ascii\<close>; the Hangul
  keywords and the full-width punctuation of the source are given by their code units.
\<close>

type_synonym jstring = "nat list"

definition ascii :: "string \<Rightarrow> jstring" where
  "ascii s = map of_char s"

definition LF :: nat where "LF = 10"
definition CR :: nat where "CR = 13"
definition SP :: nat where "SP = 32"
definition NBSP :: nat where "NBSP = 160"

text \<open>
  \<open>\s\<close> of a regular expression and the characters stripped by \<open>trim\<close> and
  \<open>trimEnd\<close> are the same set: ECMAScript WhiteSpace and LineTerminator.
\<close>

definition is_space :: "nat \<Rightarrow> bool" where
  "is_space c \<longleftrightarrow>
     (9 \<le> c \<and> c \<le> 13) \<or> c = 32 \<or> c = 160 \<or> c = 5760 \<or> (8192 \<le> c \<and> c \<le> 8202) \<or>
     c = 8232 \<or> c = 8233 \<or> c = 8239 \<or> c = 8287 \<or> c = 12288 \<or> c = 65279"

definition trimEnd :: "jstring \<Rightarrow> jstring" where
  "trimEnd s = rev (dropWhile is_space (rev s))"

definition trim :: "jstring \<Rightarrow> jstring" where
  "trim s = dropWhile is_space (trimEnd s)"

text \<open>\<open>s.split('\n')\<close>: the empty string gives one empty line.\<close>

fun split_on :: "nat \<Rightarrow> jstring \<Rightarrow> jstring list" where
  "split_on d [] = [[]]"
| "split_on d (c # cs) =
     (if c = d then [] # split_on d cs
      else (case split_on d cs of
              [] \<Rightarrow> [[c]]
            | l # ls \<Rightarrow> (c # l) # ls))"

text \<open>\<open>xs.join(sep)\<close>.\<close>

fun join :: "jstring \<Rightarrow> jstring list \<Rightarrow> jstring" where
  "join sep [] = []"
| "join sep [x] = x"
| "join sep (x # y # ys) = x @ sep @ join sep (y # ys)"

text \<open>\<open>s.replace(/c/g, r)\<close> for a single code unit \<open>c\<close>.\<close>

definition replace_unit :: "nat \<Rightarrow> jstring \<Rightarrow> jstring \<Rightarrow> jstring" where
  "replace_unit c r s = concat (map (\<lambda>x. if x = c then r else [x]) s)"

section \<open>Line classifier\<close>

text \<open>
  \<open>isOptionLine = /^[A-D][\.\)\<dots>]\s*/.test(s)\<close>, the third marker being the
  full-width full stop U+FF0E. The trailing \<open>\s*\<close> matches the empty string, so the
  test only looks at the first two code units.
\<close>

definition is_AD :: "nat \<Rightarrow> bool" where
  "is_AD c \<longleftrightarrow> 65 \<le> c \<and> c \<le> 68"

definition is_marker :: "nat \<Rightarrow> bool" where
  "is_marker c \<longleftrightarrow> c = 46 \<or> c = 41 \<or> c = 65294"

definition isOptionLine :: "jstring \<Rightarrow> bool" where
  "isOptionLine s = (case s of c # m # _ \<Rightarrow> is_AD c \<and> is_marker m | _ \<Rightarrow> False)"

definition isAnswerLine :: "jstring \<Rightarrow> bool" where
  "isAnswerLine s = (case s of c # m # _ \<Rightarrow> is_AD c \<and> is_marker m | _ \<Rightarrow> False)"

text \<open>
  \<open>isNoiseLine\<close>: empty after trimming, one of the tokens I, II, III, IV, or
  \<open>/^[-_=]{3,}$/\<close>.
\<close>

definition is_rule_unit :: "nat \<Rightarrow> bool" where
  "is_rule_unit c \<longleftrightarrow> c = 45 \<or> c = 95 \<or> c = 61"

definition isNoiseLine :: "jstring \<Rightarrow> bool" where
  "isNoiseLine s =
     (let t = trim s in
      if t = [] then True
      else if t = ascii ''I'' \<or> t = ascii ''II'' \<or> t = ascii ''III'' \<or> t = ascii ''IV'' then True
      else if 3 \<le> length t \<and> list_all is_rule_unit t then True
      else False)"

subsection \<open>The inline answer pattern\<close>

text \<open>
  The pattern of \<open>extractInlineAnswer\<close> carries the flag \<open>i\<close> (without \<open>u\<close>), which
  compares code units after \<open>toUpperCase\<close>, except that a code unit from 128 on is never
  mapped below 128. Every letter of the pattern is ASCII, Hangul or punctuation, so a
  code unit matches a pattern letter exactly when they agree after upper-casing ASCII.
\<close>

definition canon :: "nat \<Rightarrow> nat" where
  "canon c = (if 97 \<le> c \<and> c \<le> 122 then c - 32 else c)"

definition is_AD_ci :: "nat \<Rightarrow> bool" where
  "is_AD_ci c \<longleftrightarrow> is_AD (canon c)"

definition is_sep :: "nat \<Rightarrow> bool" where
  "is_sep c \<longleftrightarrow> c = 44 \<or> c = 47"

definition is_colon :: "nat \<Rightarrow> bool" where
  "is_colon c \<longleftrightarrow> c = 58 \<or> c = 65306"

definition starts_ci :: "jstring \<Rightarrow> jstring \<Rightarrow> bool" where
  "starts_ci p s \<longleftrightarrow> length p \<le> length s \<and> map canon (take (length p) s) = map canon p"

text \<open>
  \<open>(?:..|..|Answer)\<close> with the two Hangul keywords U+C815 U+B2F5 and U+B2F5 first.
  The three alternatives begin with different code units, so at most one of them
  matches and trying them in order needs no backtracking into the group. The result
  is the rest of the string after the keyword.
\<close>

definition kw_jeongdap :: jstring where "kw_jeongdap = [51221, 45813]"
definition kw_dap :: jstring where "kw_dap = [45813]"
definition kw_answer :: jstring where "kw_answer = ascii ''Answer''"

definition match_keyword :: "jstring \<Rightarrow> jstring option" where
  "match_keyword s =
     (if starts_ci kw_jeongdap s then Some (drop 2 s)
      else if starts_ci kw_dap s then Some (drop 1 s)
      else if starts_ci kw_answer s then Some (drop 6 s)
      else None)"

text \<open>
  \<open>(?:\s*[,/]\s*[A-D])*\<close>, greedy: the matched text and the rest. An iteration that
  fails gives back the white space it has read. A shorter match is never needed by
  what follows the group in either pattern, because the text given up would begin
  with a separator or white space.
\<close>

function letters_tail :: "jstring \<Rightarrow> jstring \<times> jstring" where
  "letters_tail s =
     (case dropWhile is_space s of
        [] \<Rightarrow> ([], s)
      | c # r \<Rightarrow>
          if is_sep c then
            (case dropWhile is_space r of
               [] \<Rightarrow> ([], s)
             | l # r' \<Rightarrow>
                 if is_AD_ci l then
                   (let (m, rest) = letters_tail r'
                    in (takeWhile is_space s @ [c] @ takeWhile is_space r @ [l] @ m, rest))
                 else ([], s))
          else ([], s))"
  by pat_completeness auto

termination
proof (relation "measure length")
  show "wf (measure length)" by simp
next
  fix s :: jstring and c r l r'
  assume a: "dropWhile is_space s = c # r" and b: "dropWhile is_space r = l # r'"
  have "length (c # r) \<le> length s"
    using length_dropWhile_le [of is_space s] by (simp add: a)
  moreover have "length (l # r') \<le> length r"
    using length_dropWhile_le [of is_space r] by (simp add: b)
  ultimately show "(r', s) \<in> measure length" by simp
qed

text \<open>\<open>([A-D](?:\s*[,/]\s*[A-D])*)\<close> under the flag \<open>i\<close>: the captured text and the rest.\<close>

definition answer_letters :: "jstring \<Rightarrow> (jstring \<times> jstring) option" where
  "answer_letters s =
     (case s of
        [] \<Rightarrow> None
      | l # r \<Rightarrow>
          if is_AD_ci l then (let (m, rest) = letters_tail r in Some (l # m, rest))
          else None)"

text \<open>\<open>m[1].split(/[,/]/)\<close>.\<close>

fun split_seps :: "jstring \<Rightarrow> jstring list" where
  "split_seps [] = [[]]"
| "split_seps (c # cs) =
     (if is_sep c then [] # split_seps cs
      else (case split_seps cs of
              [] \<Rightarrow> [[c]]
            | l # ls \<Rightarrow> (c # l) # ls))"

text \<open>
  \<open>extractInlineAnswer\<close>. The pattern is anchored at both ends of \<open>s.trim()\<close>:
  keyword, \<open>\s*\<close>, an optional colon (U+003A or U+FF1A), \<open>\s*\<close>, the letter list,
  \<open>\s*\<close>, end. The optional colon is taken when it is there: without it the letter
  list would have to begin at the colon. \<open>None\<close> is the source's \<open>null\<close>.
\<close>

definition skip_colon_opt :: "jstring \<Rightarrow> jstring" where
  "skip_colon_opt s = (case s of [] \<Rightarrow> [] | c # r \<Rightarrow> if is_colon c then r else c # r)"

definition extractInlineAnswer :: "jstring \<Rightarrow> jstring option" where
  "extractInlineAnswer s =
     (case match_keyword (trim s) of
        None \<Rightarrow> None
      | Some r1 \<Rightarrow>
          (case answer_letters (dropWhile is_space (skip_colon_opt (dropWhile is_space r1))) of
             None \<Rightarrow> None
           | Some (m1, rest) \<Rightarrow>
               if dropWhile is_space rest = [] then
                 (let letters = join (ascii '', '') (filter (\<lambda>v. v \<noteq> []) (map trim (split_seps m1)))
                  in if letters = [] then None else Some letters)
               else None))"

section \<open>The segmentation engine\<close>

record flashcard =
  question :: jstring
  options :: "jstring list"
  answer :: jstring
  explanation :: "jstring option"

text \<open>
  \<open>lines[k]\<close> is \<open>undefined\<close> out of range, and the engine applies \<open>.trim()\<close> to
  every line it reads (directly or inside \<open>isNoiseLine\<close>), which raises a TypeError on
  \<open>undefined\<close>. \<open>None\<close> is that exception; it propagates through every caller.
\<close>

definition line_at :: "jstring list \<Rightarrow> nat \<Rightarrow> jstring option" where
  "line_at lines k = (if k < length lines then Some (lines ! k) else None)"

text \<open>
  \<open>while (k < lines.length && isNoiseLine(lines[k])) k++\<close>. The source writes this
  loop four times (for \<open>i\<close>, twice for \<open>k\<close>, for \<open>a\<close>).
\<close>

function skip_noise :: "jstring list \<Rightarrow> nat \<Rightarrow> nat option" where
  "skip_noise lines k =
     (if k < length lines then
        (case line_at lines k of
           None \<Rightarrow> None
         | Some l \<Rightarrow> if isNoiseLine l then skip_noise lines (Suc k) else Some k)
      else Some k)"
  by pat_completeness auto
termination
  by (relation "measure (\<lambda>(lines, k). length lines - k)") auto

text \<open>
  \<open>k < lines.length && isOptionLine(lines[k].trim())\<close>, the test that follows the
  look-ahead loop in both places.
\<close>

definition option_at :: "jstring list \<Rightarrow> nat \<Rightarrow> bool option" where
  "option_at lines k =
     (if k < length lines then do { l \<leftarrow> line_at lines k; Some (isOptionLine (trim l)) }
      else Some False)"

text \<open>
  The look-ahead \<open>let k = ..; while (k < lines.length && isNoiseLine(lines[k])) k++;
  if (k < lines.length && isOptionLine(lines[k].trim()))\<close>: where it stops and
  what the test says.
\<close>

definition next_is_option :: "jstring list \<Rightarrow> nat \<Rightarrow> (nat \<times> bool) option" where
  "next_is_option lines k0 =
     do { k \<leftarrow> skip_noise lines k0; b \<leftarrow> option_at lines k; Some (k, b) }"

text \<open>Question collection, the loop on \<open>j\<close> and \<open>qLines\<close>.\<close>

function collect_question :: "jstring list \<Rightarrow> nat \<Rightarrow> jstring list \<Rightarrow> (nat \<times> jstring list) option" where
  "collect_question lines j qLines =
     (if j < length lines then
        (case line_at lines j of
           None \<Rightarrow> None
         | Some l \<Rightarrow>
             let cur = trim l in
             if isNoiseLine cur then collect_question lines (Suc j) qLines
             else if isOptionLine cur then Some (j, qLines)
             else
               (case next_is_option lines (j + 1) of
                  None \<Rightarrow> None
                | Some (k, b) \<Rightarrow>
                    if b then Some (k, qLines @ [cur])
                    else collect_question lines (Suc j) (qLines @ [cur])))
      else Some (j, qLines))"
  by pat_completeness auto
termination
  by (relation "measure (\<lambda>(lines, j, qLines). length lines - j)") auto

text \<open>Continuation lines of one option, the loop on \<open>k\<close> and \<open>opt\<close>.\<close>

function absorb_option :: "jstring list \<Rightarrow> nat \<Rightarrow> jstring \<Rightarrow> (nat \<times> jstring) option" where
  "absorb_option lines k opt =
     (if k < length lines then
        (case line_at lines k of
           None \<Rightarrow> None
         | Some l \<Rightarrow>
             let nxt = trim l in
             if isNoiseLine nxt then absorb_option lines (Suc k) opt
             else if isOptionLine nxt then Some (k, opt)
             else absorb_option lines (Suc k) (opt @ [SP] @ nxt))
      else Some (k, opt))"
  by pat_completeness auto
termination
  by (relation "measure (\<lambda>(lines, k, opt). length lines - k)") auto

declare skip_noise.simps [simp del]
declare collect_question.simps [simp del]
declare absorb_option.simps [simp del]

lemma absorb_option_mono:
  "absorb_option lines k opt = Some (k', opt') \<Longrightarrow> k \<le> k'"
proof (induction lines k opt rule: absorb_option.induct)
  case (1 lines k opt)
  show ?case
  proof (cases "k < length lines")
    case False
    with "1.prems" show ?thesis
      by (simp add: absorb_option.simps [of lines k opt])
  next
    case True
    then obtain l where l: "line_at lines k = Some l"
      by (simp add: line_at_def)
    note ih = "1.IH"(1) [OF True l refl] "1.IH"(2) [OF True l refl]
    from "1.prems" True l ih show ?thesis
      by (auto simp: absorb_option.simps [of lines k opt] Let_def
               split: if_splits dest: Suc_leD)
  qed
qed

text \<open>
  Option collection, the loop on \<open>j\<close> and \<open>options\<close>; at most four
  (\<open>if (options.length >= 4) break\<close>).
\<close>

function collect_options :: "jstring list \<Rightarrow> nat \<Rightarrow> jstring list \<Rightarrow> (nat \<times> jstring list) option" where
  "collect_options lines j opts =
     (if j < length lines then
        (case line_at lines j of
           None \<Rightarrow> None
         | Some l \<Rightarrow>
             let cur = trim l in
             if isNoiseLine cur then collect_options lines (Suc j) opts
             else if \<not> isOptionLine cur then Some (j, opts)
             else
               (case absorb_option lines (j + 1) cur of
                  None \<Rightarrow> None
                | Some (k, opt) \<Rightarrow>
                    if 4 \<le> length (opts @ [opt]) then Some (k, opts @ [opt])
                    else collect_options lines k (opts @ [opt])))
      else Some (j, opts))"
  by pat_completeness auto
termination collect_options
proof (relation "measure (\<lambda>(lines, j, opts). length lines - j)", goal_cases)
  case 1
  show ?case by simp
next
  case (2 lines j opts l)
  then show ?case by simp
next
  case (3 lines j opts l cur r k opt)
  then have "j + 1 \<le> k"
    using absorb_option_mono [of lines "j + 1" cur k opt] by simp
  with 3 show ?case by simp
qed

text \<open>
  Answer collection, the loop on \<open>a\<close> and \<open>answers\<close>. \<open>stop\<close> is the detection of
  the next question: the current line is no option line and the next line that is not
  noise is one.
\<close>

definition next_question_at :: "jstring list \<Rightarrow> nat \<Rightarrow> jstring \<Rightarrow> bool option" where
  "next_question_at lines a cur =
     (if \<not> isAnswerLine cur \<and> \<not> isOptionLine cur then
        do { (k, b) \<leftarrow> next_is_option lines (a + 1); Some b }
      else Some False)"

definition push_answer :: "jstring list \<Rightarrow> jstring \<Rightarrow> jstring list" where
  "push_answer answers cur =
     (if isAnswerLine cur then answers @ [cur]
      else if 0 < length answers then
        answers[length answers - 1 := answers ! (length answers - 1) @ [SP] @ cur]
      else answers)"

function collect_answers :: "jstring list \<Rightarrow> nat \<Rightarrow> jstring list \<Rightarrow> (nat \<times> jstring list) option" where
  "collect_answers lines a answers =
     (if a < length lines then
        (case line_at lines a of
           None \<Rightarrow> None
         | Some l \<Rightarrow>
             let cur = trim l in
             if isNoiseLine cur then collect_answers lines (Suc a) answers
             else
               (case extractInlineAnswer cur of
                  Some inline \<Rightarrow> Some (a + 1, answers @ [inline])
                | None \<Rightarrow>
                    (case next_question_at lines a cur of
                       None \<Rightarrow> None
                     | Some stop \<Rightarrow>
                         if stop then Some (a, answers)
                         else collect_answers lines (Suc a) (push_answer answers cur))))
      else Some (a, answers))"
  by pat_completeness auto
termination
  by (relation "measure (\<lambda>(lines, a, answers). length lines - a)") auto

declare collect_options.simps [simp del]
declare collect_answers.simps [simp del]

text \<open>
  The record pushed at the end of a cycle: \<open>answers.join('\n').trim()\<close>, replaced
  by the sentinel when empty; \<open>explanation: null\<close>.
\<close>

definition UNKNOWN :: jstring where
  "UNKNOWN = ascii ''UNKNOWN''"

definition emit :: "jstring \<Rightarrow> jstring list \<Rightarrow> jstring list \<Rightarrow> flashcard" where
  "emit q opts answers =
     (let ans = trim (join [LF] answers)
      in \<lparr>question = q, options = opts,
          answer = (if ans = [] then UNKNOWN else ans),
          explanation = None\<rparr>)"

text \<open>
  One iteration of the outer \<open>while (i < lines.length)\<close>, entered with \<open>i < lines.length\<close>.
  The result names the way the iteration ends and the value it leaves in \<open>i\<close>:
  the \<open>break\<close>, one of the three \<open>continue\<close>s, or the push of a record.
\<close>

datatype step =
    Break nat
  | NoOptions nat
  | EmptyQuestion nat
  | FewOptions nat
  | Emitted flashcard nat

fun cursor :: "step \<Rightarrow> nat" where
  "cursor (Break i) = i"
| "cursor (NoOptions i) = i"
| "cursor (EmptyQuestion i) = i"
| "cursor (FewOptions i) = i"
| "cursor (Emitted c i) = i"

definition no_option_at :: "jstring list \<Rightarrow> nat \<Rightarrow> bool option" where
  "no_option_at lines j =
     (if length lines \<le> j then Some True
      else do { l \<leftarrow> line_at lines j; Some (\<not> isOptionLine (trim l)) })"

definition cycle :: "jstring list \<Rightarrow> nat \<Rightarrow> step option" where
  "cycle lines i0 =
     do { i \<leftarrow> skip_noise lines i0;
          if length lines \<le> i then Some (Break i)
          else
            do { (j, qLines) \<leftarrow> collect_question lines i [];
                 none \<leftarrow> no_option_at lines j;
                 if none then Some (NoOptions (max (i + 1) j))
                 else
                   (let q = trim (join [SP] qLines) in
                    if q = [] then Some (EmptyQuestion (j + 1))
                    else
                      do { (j', opts) \<leftarrow> collect_options lines j [];
                           if length opts < 2 then Some (FewOptions (j' + 1))
                           else
                             do { a \<leftarrow> skip_noise lines j';
                                  (a', answers) \<leftarrow> collect_answers lines a [];
                                  Some (Emitted (emit q opts answers) a') } }) } }"

lemma line_at_Some: "k < length lines \<Longrightarrow> line_at lines k = Some (lines ! k)"
  by (simp add: line_at_def)

lemma skip_noise_mono: "skip_noise lines k = Some k' \<Longrightarrow> k \<le> k'"
proof (induction lines k rule: skip_noise.induct)
  case (1 lines k)
  show ?case
  proof (cases "k < length lines")
    case False
    with "1.prems" show ?thesis by (simp add: skip_noise.simps [of lines k])
  next
    case True
    note l = line_at_Some [OF True]
    from "1.prems" True l "1.IH" [OF True l] show ?thesis
      by (auto simp: skip_noise.simps [of lines k] split: if_splits dest: Suc_leD)
  qed
qed

lemma skip_noise_total: "\<exists>k'. skip_noise lines k = Some k'"
proof (induction lines k rule: skip_noise.induct)
  case (1 lines k)
  show ?case
  proof (cases "k < length lines")
    case False
    then show ?thesis by (simp add: skip_noise.simps [of lines k])
  next
    case True
    note l = line_at_Some [OF True]
    from True l "1.IH" [OF True l] show ?thesis
      by (auto simp: skip_noise.simps [of lines k])
  qed
qed

lemma option_at_total: "\<exists>b. option_at lines k = Some b"
  by (auto simp: option_at_def line_at_def)

lemma next_is_option_total: "\<exists>k b. next_is_option lines k0 = Some (k, b)"
proof -
  obtain k where k: "skip_noise lines k0 = Some k"
    using skip_noise_total by blast
  obtain b where b: "option_at lines k = Some b"
    using option_at_total by blast
  show ?thesis by (simp add: next_is_option_def k b)
qed

lemma next_is_option_mono: "next_is_option lines k0 = Some (k, b) \<Longrightarrow> k0 \<le> k"
  by (auto simp: next_is_option_def split: bind_splits dest: skip_noise_mono)

lemma collect_question_total: "\<exists>r. collect_question lines j qLines = Some r"
proof (induction lines j qLines rule: collect_question.induct)
  case (1 lines j qLines)
  show ?case
  proof (cases "j < length lines")
    case False
    then show ?thesis by (simp add: collect_question.simps [of lines j qLines])
  next
    case True
    note l = line_at_Some [OF True]
    obtain k b where kb: "next_is_option lines (j + 1) = Some (k, b)"
      using next_is_option_total by blast
    note ih1 = "1.IH"(1) [OF True l refl]
    note ih2 = "1.IH"(2) [OF True l refl _ _ kb refl]
    from True l kb ih1 ih2 show ?thesis
      by (auto simp: collect_question.simps [of lines j qLines] Let_def)
  qed
qed

lemma collect_question_mono:
  "collect_question lines j qLines = Some (j', qLines') \<Longrightarrow> j \<le> j'"
proof (induction lines j qLines rule: collect_question.induct)
  case (1 lines j qLines)
  show ?case
  proof (cases "j < length lines")
    case False
    with "1.prems" show ?thesis by (simp add: collect_question.simps [of lines j qLines])
  next
    case True
    note l = line_at_Some [OF True]
    obtain k b where kb: "next_is_option lines (j + 1) = Some (k, b)"
      using next_is_option_total by blast
    note ih1 = "1.IH"(1) [OF True l refl]
    note ih2 = "1.IH"(2) [OF True l refl _ _ kb refl]
    from "1.prems" True l kb ih1 ih2 next_is_option_mono [OF kb] show ?thesis
      by (auto simp: collect_question.simps [of lines j qLines] Let_def
               split: if_splits dest: Suc_leD)
  qed
qed

lemma absorb_option_total: "\<exists>r. absorb_option lines k opt = Some r"
proof (induction lines k opt rule: absorb_option.induct)
  case (1 lines k opt)
  show ?case
  proof (cases "k < length lines")
    case False
    then show ?thesis by (simp add: absorb_option.simps [of lines k opt])
  next
    case True
    note l = line_at_Some [OF True]
    note ih = "1.IH"(1) [OF True l refl] "1.IH"(2) [OF True l refl]
    from True l ih show ?thesis
      by (auto simp: absorb_option.simps [of lines k opt] Let_def)
  qed
qed

lemma collect_options_total: "\<exists>r. collect_options lines j opts = Some r"
proof (induction lines j opts rule: collect_options.induct)
  case (1 lines j opts)
  show ?case
  proof (cases "j < length lines")
    case False
    then show ?thesis by (simp add: collect_options.simps [of lines j opts])
  next
    case True
    note l = line_at_Some [OF True]
    obtain k opt where ko: "absorb_option lines (j + 1) (trim (lines ! j)) = Some (k, opt)"
      using absorb_option_total by (metis surj_pair)
    note ih1 = "1.IH"(1) [OF True l refl]
    note ih2 = "1.IH"(2) [OF True l refl _ _ ko refl]
    from True l ko ih1 ih2 show ?thesis
      by (auto simp: collect_options.simps [of lines j opts] Let_def)
  qed
qed

text \<open>The cursor never moves back, and it moves forward whenever an option is added.\<close>

lemma collect_options_mono:
  "collect_options lines j opts = Some (j', opts') \<Longrightarrow>
     j \<le> j' \<and> length opts \<le> length opts' \<and> (length opts < length opts' \<longrightarrow> j < j')"
proof (induction lines j opts rule: collect_options.induct)
  case (1 lines j opts)
  show ?case
  proof (cases "j < length lines")
    case False
    with "1.prems" show ?thesis by (simp add: collect_options.simps [of lines j opts])
  next
    case True
    note l = line_at_Some [OF True]
    obtain k opt where ko: "absorb_option lines (j + 1) (trim (lines ! j)) = Some (k, opt)"
      using absorb_option_total by (metis surj_pair)
    note ih1 = "1.IH"(1) [OF True l refl]
    note ih2 = "1.IH"(2) [OF True l refl _ _ ko refl]
    from "1.prems" True l ko ih1 ih2 absorb_option_mono [OF ko] show ?thesis
      by (auto simp: collect_options.simps [of lines j opts] Let_def
               split: if_splits)
  qed
qed

text \<open>No more than four options, whatever the input.\<close>

lemma collect_options_cap:
  "collect_options lines j opts = Some (j', opts') \<Longrightarrow> length opts < 4 \<Longrightarrow> length opts' \<le> 4"
proof (induction lines j opts rule: collect_options.induct)
  case (1 lines j opts)
  show ?case
  proof (cases "j < length lines")
    case False
    with "1.prems" show ?thesis by (simp add: collect_options.simps [of lines j opts])
  next
    case True
    note l = line_at_Some [OF True]
    obtain k opt where ko: "absorb_option lines (j + 1) (trim (lines ! j)) = Some (k, opt)"
      using absorb_option_total by (metis surj_pair)
    note ih1 = "1.IH"(1) [OF True l refl]
    note ih2 = "1.IH"(2) [OF True l refl _ _ ko refl]
    from "1.prems" True l ko ih1 ih2 show ?thesis
      by (auto simp: collect_options.simps [of lines j opts] Let_def
               split: if_splits)
  qed
qed

lemma next_question_at_total: "\<exists>b. next_question_at lines a cur = Some b"
  using next_is_option_total [of lines "a + 1"]
  by (auto simp: next_question_at_def)

lemma collect_answers_total: "\<exists>r. collect_answers lines a answers = Some r"
proof (induction lines a answers rule: collect_answers.induct)
  case (1 lines a answers)
  show ?case
  proof (cases "a < length lines")
    case False
    then show ?thesis by (simp add: collect_answers.simps [of lines a answers])
  next
    case True
    note l = line_at_Some [OF True]
    obtain stop where st: "next_question_at lines a (trim (lines ! a)) = Some stop"
      using next_question_at_total by blast
    note ih1 = "1.IH"(1) [OF True l refl]
    note ih2 = "1.IH"(2) [OF True l refl _ _ st]
    from True l st ih1 ih2 show ?thesis
      by (auto simp: collect_answers.simps [of lines a answers] Let_def split: option.splits)
  qed
qed

lemma collect_answers_mono:
  "collect_answers lines a answers = Some (a', answers') \<Longrightarrow> a \<le> a'"
proof (induction lines a answers rule: collect_answers.induct)
  case (1 lines a answers)
  show ?case
  proof (cases "a < length lines")
    case False
    with "1.prems" show ?thesis by (simp add: collect_answers.simps [of lines a answers])
  next
    case True
    note l = line_at_Some [OF True]
    obtain stop where st: "next_question_at lines a (trim (lines ! a)) = Some stop"
      using next_question_at_total by blast
    note ih1 = "1.IH"(1) [OF True l refl]
    note ih2 = "1.IH"(2) [OF True l refl _ _ st]
    from "1.prems" True l st ih1 ih2 show ?thesis
      by (auto simp: collect_answers.simps [of lines a answers] Let_def
               split: if_splits option.splits dest: Suc_leD)
  qed
qed

lemma no_option_at_total: "\<exists>b. no_option_at lines j = Some b"
  by (auto simp: no_option_at_def line_at_def)

text \<open>Every iteration of the outer loop returns, and an iteration that is entered moves the cursor forward.\<close>

lemma cycle_total: "\<exists>st. cycle lines i0 = Some st"
proof -
  obtain i where i: "skip_noise lines i0 = Some i"
    using skip_noise_total by blast
  obtain j qLines where q: "collect_question lines i [] = Some (j, qLines)"
    using collect_question_total by (metis surj_pair)
  obtain none where n: "no_option_at lines j = Some none"
    using no_option_at_total by blast
  obtain j' opts where os: "collect_options lines j [] = Some (j', opts)"
    using collect_options_total by (metis surj_pair)
  obtain a where a: "skip_noise lines j' = Some a"
    using skip_noise_total by blast
  obtain a' answers where ans: "collect_answers lines a [] = Some (a', answers)"
    using collect_answers_total by (metis surj_pair)
  show ?thesis
    by (simp add: cycle_def i q n os a ans Let_def)
qed

lemma cycle_progress:
  assumes "i0 < length lines" and "cycle lines i0 = Some st"
  shows "i0 < cursor st"
proof -
  obtain i where i: "skip_noise lines i0 = Some i"
    using skip_noise_total by blast
  obtain j qLines where q: "collect_question lines i [] = Some (j, qLines)"
    using collect_question_total by (metis surj_pair)
  obtain none where n: "no_option_at lines j = Some none"
    using no_option_at_total by blast
  obtain j' opts where os: "collect_options lines j [] = Some (j', opts)"
    using collect_options_total by (metis surj_pair)
  obtain a where a: "skip_noise lines j' = Some a"
    using skip_noise_total by blast
  obtain a' answers where ans: "collect_answers lines a [] = Some (a', answers)"
    using collect_answers_total by (metis surj_pair)
  have 1: "i0 \<le> i" using skip_noise_mono [OF i] .
  have 2: "i \<le> j" using collect_question_mono [OF q] .
  have 3: "j \<le> j'" "0 < length opts \<longrightarrow> j < j'"
    using collect_options_mono [OF os] by simp_all
  have 4: "j' \<le> a" using skip_noise_mono [OF a] .
  have 5: "a \<le> a'" using collect_answers_mono [OF ans] .
  from assms(2) have "st = (if length lines \<le> i then Break i
      else if none then NoOptions (max (i + 1) j)
      else if trim (join [SP] qLines) = [] then EmptyQuestion (j + 1)
      else if length opts < 2 then FewOptions (j' + 1)
      else Emitted (emit (trim (join [SP] qLines)) opts answers) a')"
    by (simp add: cycle_def i q n os a ans Let_def split: if_splits)
  with assms(1) 1 2 3 4 5 show ?thesis
    by (auto split: if_splits)
qed


text \<open>
  The outer loop \<open>while (i < lines.length)\<close> with the list \<open>cards\<close>. It ends because
  every iteration moves \<open>i\<close> forward.
\<close>

function parse_loop :: "jstring list \<Rightarrow> nat \<Rightarrow> flashcard list \<Rightarrow> flashcard list option" where
  "parse_loop lines i cards =
     (if i < length lines then
        (case cycle lines i of
           None \<Rightarrow> None
         | Some st \<Rightarrow>
             (case st of
                Break i' \<Rightarrow> Some cards
              | NoOptions i' \<Rightarrow> parse_loop lines i' cards
              | EmptyQuestion i' \<Rightarrow> parse_loop lines i' cards
              | FewOptions i' \<Rightarrow> parse_loop lines i' cards
              | Emitted c i' \<Rightarrow> parse_loop lines i' (cards @ [c])))
      else Some cards)"
  by pat_completeness auto
termination parse_loop
proof (relation "measure (\<lambda>(lines, i, cards). length lines - i)", goal_cases)
  case 1
  show ?case by simp
next
  case (2 lines i cards st i')
  with cycle_progress [of i lines st] show ?case by simp
next
  case (3 lines i cards st i')
  with cycle_progress [of i lines st] show ?case by simp
next
  case (4 lines i cards st i')
  with cycle_progress [of i lines st] show ?case by simp
next
  case (5 lines i cards st c i')
  with cycle_progress [of i lines st] show ?case by simp
qed

declare parse_loop.simps [simp del]

text \<open>
  The lines of the raw text:
  \<open>rawText.replace(/\r/g, '').split('\n').map(l => l.replace(/\u00A0/g, ' ').trimEnd())\<close>.
\<close>

definition to_lines :: "jstring \<Rightarrow> jstring list" where
  "to_lines raw = map (\<lambda>l. trimEnd (replace_unit NBSP [SP] l)) (split_on LF (replace_unit CR [] raw))"

definition parseDocxContent :: "jstring \<Rightarrow> flashcard list option" where
  "parseDocxContent raw = parse_loop (to_lines raw) 0 []"

text \<open>
  The iterations of the outer loop from cursor \<open>i\<close>, one entry for each, in order: the
  same recursion as \<open>parse_loop\<close>, keeping every outcome instead of the records only.
\<close>

function iterations :: "jstring list \<Rightarrow> nat \<Rightarrow> step list option" where
  "iterations lines i =
     (if i < length lines then
        (case cycle lines i of
           None \<Rightarrow> None
         | Some st \<Rightarrow>
             (case st of
                Break i' \<Rightarrow> Some [st]
              | NoOptions i' \<Rightarrow> map_option ((#) st) (iterations lines i')
              | EmptyQuestion i' \<Rightarrow> map_option ((#) st) (iterations lines i')
              | FewOptions i' \<Rightarrow> map_option ((#) st) (iterations lines i')
              | Emitted c i' \<Rightarrow> map_option ((#) st) (iterations lines i')))
      else Some [])"
  by pat_completeness auto
termination iterations
proof (relation "measure (\<lambda>(lines, i). length lines - i)", goal_cases)
  case 1
  show ?case by simp
next
  case (2 lines i st i')
  with cycle_progress [of i lines st] show ?case by simp
next
  case (3 lines i st i')
  with cycle_progress [of i lines st] show ?case by simp
next
  case (4 lines i st i')
  with cycle_progress [of i lines st] show ?case by simp
next
  case (5 lines i st c i')
  with cycle_progress [of i lines st] show ?case by simp
qed

declare iterations.simps [simp del]

fun emitted :: "step list \<Rightarrow> flashcard list" where
  "emitted [] = []"
| "emitted (Emitted c i # ss) = c # emitted ss"
| "emitted (s # ss) = emitted ss"

fun is_break :: "step \<Rightarrow> bool" where
  "is_break (Break i) = True"
| "is_break st = False"

text \<open>
  The values of \<open>question\<close>, \<open>options\<close>, \<open>answers\<close> and \<open>j\<close> with which the iteration
  entered at \<open>i0\<close> arrives at \<open>flashcards.push\<close>; \<open>None\<close> when it leaves by the \<open>break\<close>
  or by a \<open>continue\<close>.
\<close>

definition candidate :: "jstring list \<Rightarrow> nat \<Rightarrow> (jstring \<times> jstring list \<times> jstring list \<times> nat) option" where
  "candidate lines i0 =
     do { i \<leftarrow> skip_noise lines i0;
          if length lines \<le> i then None
          else
            do { (j, qLines) \<leftarrow> collect_question lines i [];
                 none \<leftarrow> no_option_at lines j;
                 if none then None
                 else
                   (let q = trim (join [SP] qLines) in
                    if q = [] then None
                    else
                      do { (j', opts) \<leftarrow> collect_options lines j [];
                           if length opts < 2 then None
                           else
                             do { a \<leftarrow> skip_noise lines j';
                                  (a', answers) \<leftarrow> collect_answers lines a [];
                                  Some (q, opts, answers, a') } }) } }"

text \<open>
  The values \<open>i\<close> has when the condition of the outer \<open>while (i < lines.length)\<close> is
  tested: 0, and the value an iteration leaves that does not end in the \<open>break\<close>.
\<close>

inductive visited :: "jstring list \<Rightarrow> nat \<Rightarrow> bool" for lines :: "jstring list" where
  visited_first: "visited lines 0"
| visited_next: "visited lines i \<Longrightarrow> i < length lines \<Longrightarrow> cycle lines i = Some st \<Longrightarrow> \<not> is_break st
     \<Longrightarrow> visited lines (cursor st)"

code_pred visited .

lemma iterations_end: "\<not> i < length lines \<Longrightarrow> iterations lines i = Some []"
  by (simp add: iterations.simps [of lines i])

lemma iterations_unfold:
  "i < length lines \<Longrightarrow> cycle lines i = Some st \<Longrightarrow>
     iterations lines i =
       (if is_break st then Some [st] else map_option ((#) st) (iterations lines (cursor st)))"
  by (cases st) (simp_all add: iterations.simps [of lines i])

lemma parse_loop_end: "\<not> i < length lines \<Longrightarrow> parse_loop lines i cards = Some cards"
  by (simp add: parse_loop.simps [of lines i cards])

lemma parse_loop_unfold:
  "i < length lines \<Longrightarrow> cycle lines i = Some st \<Longrightarrow>
     parse_loop lines i cards =
       (if is_break st then Some cards else parse_loop lines (cursor st) (cards @ emitted [st]))"
  by (cases st) (simp_all add: parse_loop.simps [of lines i cards])

lemma iterations_total: "\<exists>t. iterations lines i = Some t"
proof (induction "length lines - i" arbitrary: i rule: less_induct)
  case less
  show ?case
  proof (cases "i < length lines")
    case False
    then show ?thesis by (simp add: iterations_end)
  next
    case True
    obtain st where st: "cycle lines i = Some st"
      using cycle_total by blast
    have "i < cursor st"
      using cycle_progress [OF True st] .
    with True have "length lines - cursor st < length lines - i" by simp
    from less [OF this] show ?thesis
      by (auto simp: iterations_unfold [OF True st])
  qed
qed

lemma iterations_length: "iterations lines i = Some t \<Longrightarrow> length t \<le> length lines - i"
proof (induction "length lines - i" arbitrary: i t rule: less_induct)
  case less
  show ?case
  proof (cases "i < length lines")
    case False
    with less.prems show ?thesis by (simp add: iterations_end)
  next
    case True
    obtain st where st: "cycle lines i = Some st"
      using cycle_total by blast
    have adv: "i < cursor st"
      using cycle_progress [OF True st] .
    with True have dec: "length lines - cursor st < length lines - i" by simp
    show ?thesis
    proof (cases "is_break st")
      case True
      with less.prems \<open>i < length lines\<close> st show ?thesis
        by (auto simp: iterations_unfold)
    next
      case False
      with less.prems True st obtain t' where t': "iterations lines (cursor st) = Some t'" "t = st # t'"
        by (auto simp: iterations_unfold)
      from less.hyps [OF dec t'(1)] t'(2) adv True show ?thesis by simp
    qed
  qed
qed

lemma emitted_append: "emitted (xs @ ys) = emitted xs @ emitted ys"
  by (induction xs rule: emitted.induct) simp_all


lemma parse_loop_iterations:
  "parse_loop lines i cards = map_option (\<lambda>t. cards @ emitted t) (iterations lines i)"
proof (induction "length lines - i" arbitrary: i cards rule: less_induct)
  case less
  show ?case
  proof (cases "i < length lines")
    case False
    then show ?thesis by (simp add: iterations_end parse_loop_end)
  next
    case True
    obtain st where st: "cycle lines i = Some st"
      using cycle_total by blast
    have "i < cursor st"
      using cycle_progress [OF True st] .
    with True have dec: "length lines - cursor st < length lines - i" by simp
    have ih: "parse_loop lines (cursor st) cs = map_option (\<lambda>t. cs @ emitted t) (iterations lines (cursor st))" for cs
      using less [OF dec] .
    show ?thesis
    proof (cases "is_break st")
      case True
      then have "emitted [st] = []" by (cases st) simp_all
      with True show ?thesis
        by (simp add: iterations_unfold [OF \<open>i < length lines\<close> st] parse_loop_unfold [OF \<open>i < length lines\<close> st])
    next
      case False
      have "emitted [st] @ emitted t = emitted (st # t)" for t
        using emitted_append [of "[st]" t] by simp
      with False show ?thesis
        by (simp add: iterations_unfold [OF True st] parse_loop_unfold [OF True st] ih
              option.map_comp comp_def)
    qed
  qed
qed

lemma iterations_steps:
  "iterations lines i = Some t \<Longrightarrow> st \<in> set t \<Longrightarrow> \<exists>i0. i0 < length lines \<and> cycle lines i0 = Some st"
proof (induction "length lines - i" arbitrary: i t rule: less_induct)
  case less
  show ?case
  proof (cases "i < length lines")
    case False
    with less.prems show ?thesis by (simp add: iterations_end)
  next
    case True
    obtain s0 where s0: "cycle lines i = Some s0"
      using cycle_total by blast
    have "i < cursor s0"
      using cycle_progress [OF True s0] .
    with True have dec: "length lines - cursor s0 < length lines - i" by simp
    show ?thesis
    proof (cases "is_break s0")
      case True
      with less.prems \<open>i < length lines\<close> s0 show ?thesis
        by (auto simp: iterations_unfold)
    next
      case False
      with less.prems True s0 obtain t' where t': "iterations lines (cursor s0) = Some t'" "t = s0 # t'"
        by (auto simp: iterations_unfold)
      show ?thesis
      proof (cases "st = s0")
        case True
        with s0 \<open>i < length lines\<close> show ?thesis by blast
      next
        case False
        with less.prems(2) t'(2) have "st \<in> set t'" by simp
        from less.hyps [OF dec t'(1) this] show ?thesis .
      qed
    qed
  qed
qed

lemma emitted_mem: "c \<in> set (emitted t) \<Longrightarrow> \<exists>i. Emitted c i \<in> set t"
  by (induction t rule: emitted.induct) auto

text \<open>A record is pushed only with a question that is not empty and two to four options.\<close>

lemma cycle_emitted:
  assumes "cycle lines i0 = Some (Emitted c a')"
  shows "\<exists>q opts answers. c = emit q opts answers \<and> q \<noteq> [] \<and> 2 \<le> length opts \<and> length opts \<le> 4"
proof -
  obtain i where i: "skip_noise lines i0 = Some i"
    using skip_noise_total by blast
  obtain j qLines where q: "collect_question lines i [] = Some (j, qLines)"
    using collect_question_total by (metis surj_pair)
  obtain none where n: "no_option_at lines j = Some none"
    using no_option_at_total by blast
  obtain j' opts where os: "collect_options lines j [] = Some (j', opts)"
    using collect_options_total by (metis surj_pair)
  obtain a where a: "skip_noise lines j' = Some a"
    using skip_noise_total by blast
  obtain a'' answers where ans: "collect_answers lines a [] = Some (a'', answers)"
    using collect_answers_total by (metis surj_pair)
  have cap: "length opts \<le> 4"
    using collect_options_cap [OF os] by simp
  from assms have "c = emit (trim (join [SP] qLines)) opts answers
      \<and> trim (join [SP] qLines) \<noteq> [] \<and> \<not> length opts < 2"
    by (simp add: cycle_def i q n os a ans Let_def split: if_splits)
  with cap show ?thesis by (intro exI [of _ "trim (join [SP] qLines)"] exI [of _ opts] exI [of _ answers]) simp
qed

lemma parse_cards:
  assumes "parseDocxContent raw = Some cards" and "c \<in> set cards"
  shows "\<exists>q opts answers. c = emit q opts answers \<and> q \<noteq> [] \<and> 2 \<le> length opts \<and> length opts \<le> 4"
proof -
  from assms(1) obtain t where t: "iterations (to_lines raw) 0 = Some t" "cards = emitted t"
    by (auto simp: parseDocxContent_def parse_loop_iterations)
  with assms(2) obtain i where "Emitted c i \<in> set t"
    using emitted_mem by blast
  with t(1) obtain i0 where "cycle (to_lines raw) i0 = Some (Emitted c i)"
    using iterations_steps by blast
  then show ?thesis by (rule cycle_emitted)
qed

lemma candidate_cycle:
  "candidate lines i0 = Some (q, opts, answers, a') \<Longrightarrow>
     cycle lines i0 = Some (Emitted (emit q opts answers) a')"
proof -
  assume c: "candidate lines i0 = Some (q, opts, answers, a')"
  obtain i where i: "skip_noise lines i0 = Some i"
    using skip_noise_total by blast
  obtain j qLines where ql: "collect_question lines i [] = Some (j, qLines)"
    using collect_question_total by (metis surj_pair)
  obtain none where n: "no_option_at lines j = Some none"
    using no_option_at_total by blast
  obtain j' os where os: "collect_options lines j [] = Some (j', os)"
    using collect_options_total by (metis surj_pair)
  obtain a where a: "skip_noise lines j' = Some a"
    using skip_noise_total by blast
  obtain a'' ans where ans: "collect_answers lines a [] = Some (a'', ans)"
    using collect_answers_total by (metis surj_pair)
  from c show ?thesis
    by (simp add: candidate_def cycle_def i ql n os a ans Let_def split: if_splits)
qed

lemma cycle_candidate:
  "cycle lines i0 = Some (Emitted c a') \<Longrightarrow>
     \<exists>q opts answers. candidate lines i0 = Some (q, opts, answers, a') \<and> c = emit q opts answers"
proof -
  assume c: "cycle lines i0 = Some (Emitted c a')"
  obtain i where i: "skip_noise lines i0 = Some i"
    using skip_noise_total by blast
  obtain j qLines where ql: "collect_question lines i [] = Some (j, qLines)"
    using collect_question_total by (metis surj_pair)
  obtain none where n: "no_option_at lines j = Some none"
    using no_option_at_total by blast
  obtain j' os where os: "collect_options lines j [] = Some (j', os)"
    using collect_options_total by (metis surj_pair)
  obtain a where a: "skip_noise lines j' = Some a"
    using skip_noise_total by blast
  obtain a'' ans where ans: "collect_answers lines a [] = Some (a'', ans)"
    using collect_answers_total by (metis surj_pair)
  from c show ?thesis
    by (simp add: candidate_def cycle_def i ql n os a ans Let_def split: if_splits)
qed

lemma iterations_head:
  "i < length lines \<Longrightarrow> cycle lines i = Some st \<Longrightarrow> iterations lines i = Some t \<Longrightarrow> st \<in> set t"
  by (auto simp: iterations_unfold split: if_splits)

lemma visited_iterations:
  "visited lines i \<Longrightarrow> iterations lines 0 = Some t \<Longrightarrow>
     \<exists>ti. iterations lines i = Some ti \<and> set ti \<subseteq> set t"
proof (induction rule: visited.induct)
  case visited_first
  then show ?case by simp
next
  case (visited_next i st)
  then obtain ti where ti: "iterations lines i = Some ti" "set ti \<subseteq> set t" by blast
  from ti(1) visited_next.hyps obtain t' where "iterations lines (cursor st) = Some t'" "ti = st # t'"
    by (auto simp: iterations_unfold)
  with ti(2) show ?case by auto
qed

lemma iterations_visited:
  "iterations lines i = Some t \<Longrightarrow> visited lines i \<Longrightarrow> st \<in> set t \<Longrightarrow>
     \<exists>i0. visited lines i0 \<and> i0 < length lines \<and> cycle lines i0 = Some st"
proof (induction "length lines - i" arbitrary: i t rule: less_induct)
  case less
  show ?case
  proof (cases "i < length lines")
    case False
    with less.prems show ?thesis by (simp add: iterations_end)
  next
    case True
    obtain s0 where s0: "cycle lines i = Some s0"
      using cycle_total by blast
    have "i < cursor s0"
      using cycle_progress [OF True s0] .
    with True have dec: "length lines - cursor s0 < length lines - i" by simp
    show ?thesis
    proof (cases "is_break s0")
      case True
      with less.prems \<open>i < length lines\<close> s0 show ?thesis
        by (auto simp: iterations_unfold)
    next
      case False
      with less.prems True s0 obtain t' where t': "iterations lines (cursor s0) = Some t'" "t = s0 # t'"
        by (auto simp: iterations_unfold)
      have v: "visited lines (cursor s0)"
        using less.prems(2) True s0 False by (rule visited_next)
      show ?thesis
      proof (cases "st = s0")
        case True
        with s0 \<open>i < length lines\<close> less.prems(2) show ?thesis by blast
      next
        case False
        with less.prems(3) t'(2) have "st \<in> set t'" by simp
        from less.hyps [OF dec t'(1) v this] show ?thesis .
      qed
    qed
  qed
qed

lemma emitted_in: "Emitted c i \<in> set t \<Longrightarrow> c \<in> set (emitted t)"
  by (induction t rule: emitted.induct) auto

lemma UNKNOWN_nonempty: "UNKNOWN \<noteq> []"
  by (simp add: UNKNOWN_def ascii_def)


section \<open>Text normalizer\<close>

text \<open>
  Steps 1 and 3 of \<open>normalizeMcqText\<close> are both
  \<open>t.replace(/([^\n])\s*(BODY)/g, '$1\n$2')\<close>. The scan tries every position from
  the left and resumes after a match. \<open>\s*\<close> is greedy and takes the whole run of white
  space; giving some of it back never helps, because neither body can begin with a
  white space character. \<open>body\<close> gives the length of the match of BODY at the start of
  a string.
\<close>

function break_before :: "(jstring \<Rightarrow> nat option) \<Rightarrow> jstring \<Rightarrow> jstring" where
  "break_before body s =
     (case s of
        [] \<Rightarrow> []
      | c # r \<Rightarrow>
          if c = LF then c # break_before body r
          else
            (case body (dropWhile is_space r) of
               None \<Rightarrow> c # break_before body r
             | Some n \<Rightarrow>
                 c # LF # take n (dropWhile is_space r)
                   @ break_before body (drop n (dropWhile is_space r))))"
  by pat_completeness auto
termination
proof (relation "measure (\<lambda>(body, s). length s)", goal_cases)
  case 1
  show ?case by simp
next
  case (2 body s c r)
  then show ?case by simp
next
  case (3 body s c r)
  then show ?case by simp
next
  case (4 body s c r n)
  have "length (dropWhile is_space r) \<le> length r"
    by (rule length_dropWhile_le)
  with 4 show ?case by simp
qed

declare break_before.simps [simp del]

text \<open>Step 1, BODY = \<open>[A-D][\.\)\<dots>]\s*\<close> (no flag \<open>i\<close>).\<close>

definition option_marker_len :: "jstring \<Rightarrow> nat option" where
  "option_marker_len s =
     (case s of
        l # m # r \<Rightarrow>
          if is_AD l \<and> is_marker m then Some (2 + length (takeWhile is_space r)) else None
      | _ \<Rightarrow> None)"

text \<open>
  Step 3, BODY = keyword, \<open>\s*\<close>, a colon, \<open>\s*\<close>, the letter list, under the flags
  \<open>gi\<close>. Here the colon is required.
\<close>

definition inline_answer_len :: "jstring \<Rightarrow> nat option" where
  "inline_answer_len s =
     (case match_keyword s of
        None \<Rightarrow> None
      | Some r1 \<Rightarrow>
          (case dropWhile is_space r1 of
             [] \<Rightarrow> None
           | c # r3 \<Rightarrow>
               if is_colon c then
                 (case answer_letters (dropWhile is_space r3) of
                    None \<Rightarrow> None
                  | Some (m, rest) \<Rightarrow> Some (length s - length rest))
               else None))"

text \<open>Step 2, \<open>t.replace(/\n{3,}/g, '\n\n')\<close>: a run of three or more line feeds becomes two.\<close>

function collapse_blank :: "jstring \<Rightarrow> jstring" where
  "collapse_blank s =
     (case s of
        [] \<Rightarrow> []
      | c # r \<Rightarrow>
          if 3 \<le> length (takeWhile (\<lambda>x. x = LF) s)
          then LF # LF # collapse_blank (dropWhile (\<lambda>x. x = LF) s)
          else c # collapse_blank r)"
  by pat_completeness auto
termination
proof (relation "measure length", goal_cases)
  case 1
  show ?case by simp
next
  case (2 s c r)
  have "length (takeWhile (\<lambda>x. x = LF) s) + length (dropWhile (\<lambda>x. x = LF) s) = length s"
    using takeWhile_dropWhile_id [of "\<lambda>x. x = LF" s] by (metis length_append)
  with 2 show ?case by simp
next
  case (3 s c r)
  then show ?case by simp
qed

declare collapse_blank.simps [simp del]

definition normalizeMcqText :: "jstring \<Rightarrow> jstring" where
  "normalizeMcqText raw =
     break_before inline_answer_len
       (collapse_blank
          (break_before option_marker_len
             (replace_unit NBSP [SP] (replace_unit CR [] raw))))"

section \<open>Scenarios of the specification, run on the engine\<close>

definition jeongdap_B :: jstring where
  "jeongdap_B = [51221, 45813] @ ascii '': B''"

definition scenario_A :: "jstring list" where
  "scenario_A = [ascii ''What is 2+2?'', ascii ''A. 3'', ascii ''B. 4'', ascii ''C. 5'', jeongdap_B]"

definition scenario_B :: "jstring list" where
  "scenario_B = [ascii ''What is 2+2?'', ascii ''A. 3'', ascii ''B. 4'', ascii ''C. 5'', ascii ''B. 4'']"

definition scenario_B_four :: "jstring list" where
  "scenario_B_four =
     [ascii ''What is 2+2?'', ascii ''A. 3'', ascii ''B. 4'', ascii ''C. 5'', ascii ''D. 6'', ascii ''B. 4'']"

definition scenario_D :: "jstring list" where
  "scenario_D = [ascii ''Q1'', ascii ''A. x'', ascii ''B. y'', ascii ''Q2'', ascii ''A. p'', ascii ''B. q'']"

lemmas engine_eval =
  cycle_def skip_noise.simps collect_question.simps collect_options.simps absorb_option.simps
  collect_answers.simps parse_loop.simps parseDocxContent_def to_lines_def replace_unit_def
  line_at_def isNoiseLine_def isOptionLine_def isAnswerLine_def trim_def trimEnd_def is_space_def
  ascii_def next_is_option_def option_at_def no_option_at_def next_question_at_def
  push_answer_def emit_def UNKNOWN_def is_AD_def is_marker_def is_rule_unit_def
  SP_def LF_def CR_def NBSP_def extractInlineAnswer_def match_keyword_def starts_ci_def
  kw_jeongdap_def kw_dap_def kw_answer_def canon_def Let_def

lemmas scenario_defs = scenario_A_def scenario_B_def scenario_B_four_def scenario_D_def jeongdap_B_def

text \<open>
  C1 (Scenario A). On the five lines of Scenario A the engine returns one record, but
  not the one the specification gives: the loop that joins continuation lines to an
  option takes every line that is neither noise nor an option line, so the inline
  answer line is appended to option C, no answer is collected and the answer is the
  sentinel.
\<close>

theorem scenario_A_inline_answer_absorbed:
  "parseDocxContent (join [LF] scenario_A) =
     Some [\<lparr>question = ascii ''What is 2+2?'',
            options = [ascii ''A. 3'', ascii ''B. 4'', ascii ''C. 5 '' @ jeongdap_B],
            answer = UNKNOWN,
            explanation = None\<rparr>]"
  by (simp add: scenario_defs engine_eval)

text \<open>
  C2 (Scenario D). On two adjacent records with no answer between them the engine
  returns a single record: the question line of the second record is joined to option
  B of the first, and the options of the second record become options three and four
  of the first.
\<close>

theorem scenario_D_second_question_absorbed:
  "parseDocxContent (join [LF] scenario_D) =
     Some [\<lparr>question = ascii ''Q1'',
            options = [ascii ''A. x'', ascii ''B. y Q2'', ascii ''A. p'', ascii ''B. q''],
            answer = UNKNOWN,
            explanation = None\<rparr>]"
  by (simp add: scenario_defs engine_eval)

text \<open>
  C7 (Scenario B), as stated: with the three options of Scenario A followed by the
  repeated option line, the result is not one record with the answer \<open>B. 4\<close>.
\<close>

theorem scenario_B_three_options_counterexample:
  "\<not> (\<exists>c. parseDocxContent (join [LF] scenario_B) = Some [c] \<and> answer c = ascii ''B. 4'')"
  by (simp add: scenario_defs engine_eval)

text \<open>
  C7 (Scenario B), amended: the repeated option line is the answer when it follows
  four options. After the three options of Scenario A it is collected as the fourth
  option and the answer is the sentinel.
\<close>

theorem scenario_B_repeated_option_answer:
  "parseDocxContent (join [LF] scenario_B_four) =
     Some [\<lparr>question = ascii ''What is 2+2?'',
            options = [ascii ''A. 3'', ascii ''B. 4'', ascii ''C. 5'', ascii ''D. 6''],
            answer = ascii ''B. 4'',
            explanation = None\<rparr>]
   \<and> parseDocxContent (join [LF] scenario_B) =
     Some [\<lparr>question = ascii ''What is 2+2?'',
            options = [ascii ''A. 3'', ascii ''B. 4'', ascii ''C. 5'', ascii ''B. 4''],
            answer = UNKNOWN,
            explanation = None\<rparr>]"
  by (simp add: scenario_defs engine_eval)

lemma parse_total: "\<exists>cards. parseDocxContent raw = Some cards"
  using iterations_total [of "to_lines raw" 0]
  by (auto simp: parseDocxContent_def parse_loop_iterations)

section \<open>Properties of the engine\<close>

text \<open>
  C3 (progress). An iteration of the outer loop that is entered (\<open>i < lines.length\<close>)
  returns and leaves the cursor strictly greater than it found it, whichever way it
  ends. Hence the loop ends on every input: \<open>parseDocxContent\<close> returns the records of
  its iterations, and there are at most as many iterations as lines.
\<close>

theorem segmentation_progress:
  "(i < length lines \<longrightarrow> (\<exists>st. cycle lines i = Some st \<and> i < cursor st))
   \<and> (\<exists>t. iterations (to_lines raw) 0 = Some t
          \<and> parseDocxContent raw = Some (emitted t)
          \<and> length t \<le> length (to_lines raw))"
proof
  show "i < length lines \<longrightarrow> (\<exists>st. cycle lines i = Some st \<and> i < cursor st)"
    using cycle_total [of lines i] cycle_progress [of i lines] by auto
next
  obtain t where t: "iterations (to_lines raw) 0 = Some t"
    using iterations_total by blast
  have "length t \<le> length (to_lines raw)"
    using iterations_length [OF t] by simp
  with t show "\<exists>t. iterations (to_lines raw) 0 = Some t
          \<and> parseDocxContent raw = Some (emitted t)
          \<and> length t \<le> length (to_lines raw)"
    by (simp add: parseDocxContent_def parse_loop_iterations)
qed

theorem segmentation_progress_witness:
  "(0::nat) < length scenario_B_four
   \<and> (\<exists>st. cycle scenario_B_four 0 = Some st \<and> 0 < cursor st)
   \<and> (\<exists>t. iterations (to_lines (join [LF] scenario_B_four)) 0 = Some t
          \<and> parseDocxContent (join [LF] scenario_B_four) = Some (emitted t)
          \<and> length t \<le> length (to_lines (join [LF] scenario_B_four)))"
proof -
  have h: "(0::nat) < length scenario_B_four"
    by (simp add: scenario_B_four_def)
  from segmentation_progress [of 0 scenario_B_four "join [LF] scenario_B_four"] h
  show ?thesis by blast
qed

text \<open>
  C4 (output validity). Every record returned by \<open>parseDocxContent\<close> has a question
  and an answer that are not empty, no option or two to four options, and no
  explanation; it is the record of an iteration of the run that arrived at the push,
  with the question and options of that iteration, and with the answer buffer of that
  iteration joined by line feeds and trimmed as its answer, or the sentinel \<open>UNKNOWN\<close>
  when that is empty. Conversely every iteration of the run that arrives at the push
  has its record in the result, whatever its answer buffer is: with an empty buffer, or
  one that trims to nothing, the record is returned with the sentinel as its answer.
\<close>

theorem emitted_cards_valid:
  assumes "parseDocxContent raw = Some cards"
  shows "(\<forall>c\<in>set cards.
            question c \<noteq> []
          \<and> answer c \<noteq> []
          \<and> (length (options c) = 0 \<or> (2 \<le> length (options c) \<and> length (options c) \<le> 4))
          \<and> explanation c = None
          \<and> (\<exists>i0 q opts answers a'.
                visited (to_lines raw) i0 \<and> i0 < length (to_lines raw)
              \<and> candidate (to_lines raw) i0 = Some (q, opts, answers, a')
              \<and> c = \<lparr>question = q, options = opts,
                       answer = (if trim (join [LF] answers) = [] then UNKNOWN
                                 else trim (join [LF] answers)),
                       explanation = None\<rparr>))
     \<and> (\<forall>i0 q opts answers a'.
            visited (to_lines raw) i0 \<and> i0 < length (to_lines raw)
          \<and> candidate (to_lines raw) i0 = Some (q, opts, answers, a')
          \<longrightarrow> \<lparr>question = q, options = opts,
                answer = (if trim (join [LF] answers) = [] then UNKNOWN
                          else trim (join [LF] answers)),
                explanation = None\<rparr> \<in> set cards)"
proof -
  define lines where "lines = to_lines raw"
  from assms obtain t where t: "iterations lines 0 = Some t" and cards: "cards = emitted t"
    by (auto simp: parseDocxContent_def parse_loop_iterations lines_def)
  have e: "\<And>q opts answers. emit q opts answers =
      \<lparr>question = q, options = opts,
       answer = (if trim (join [LF] answers) = [] then UNKNOWN else trim (join [LF] answers)),
       explanation = None\<rparr>"
    by (simp add: emit_def Let_def)
  have A: "question c \<noteq> []
          \<and> answer c \<noteq> []
          \<and> (length (options c) = 0 \<or> (2 \<le> length (options c) \<and> length (options c) \<le> 4))
          \<and> explanation c = None
          \<and> (\<exists>i0 q opts answers a'.
                visited lines i0 \<and> i0 < length lines
              \<and> candidate lines i0 = Some (q, opts, answers, a')
              \<and> c = \<lparr>question = q, options = opts,
                       answer = (if trim (join [LF] answers) = [] then UNKNOWN
                                 else trim (join [LF] answers)),
                       explanation = None\<rparr>)" if c: "c \<in> set cards" for c
  proof -
    from c cards obtain k where "Emitted c k \<in> set t"
      using emitted_mem by blast
    from iterations_visited [OF t visited_first this] obtain i0 where
      v: "visited lines i0" and b: "i0 < length lines" and cy: "cycle lines i0 = Some (Emitted c k)"
      by blast
    from cycle_candidate [OF cy] obtain q opts answers where
      ca: "candidate lines i0 = Some (q, opts, answers, k)" and ce: "c = emit q opts answers"
      by blast
    from cycle_emitted [OF cy] obtain q' opts' answers' where
      f: "c = emit q' opts' answers'" "q' \<noteq> []" "2 \<le> length opts'" "length opts' \<le> 4"
      by blast
    from f have 1: "question c \<noteq> []" "2 \<le> length (options c)" "length (options c) \<le> 4"
      "explanation c = None"
      by (simp_all add: e)
    have 2: "answer c \<noteq> []"
      using UNKNOWN_nonempty by (simp add: ce e)
    from v b ca ce have "\<exists>i0 q opts answers a'.
                visited lines i0 \<and> i0 < length lines
              \<and> candidate lines i0 = Some (q, opts, answers, a')
              \<and> c = \<lparr>question = q, options = opts,
                       answer = (if trim (join [LF] answers) = [] then UNKNOWN
                                 else trim (join [LF] answers)),
                       explanation = None\<rparr>"
      unfolding e by blast
    with 1 2 show ?thesis by simp
  qed
  have B: "\<lparr>question = q, options = opts,
                answer = (if trim (join [LF] answers) = [] then UNKNOWN
                          else trim (join [LF] answers)),
                explanation = None\<rparr> \<in> set cards"
    if v: "visited lines i0" and b: "i0 < length lines"
      and ca: "candidate lines i0 = Some (q, opts, answers, a')" for i0 q opts answers a'
  proof -
    from candidate_cycle [OF ca] have cy: "cycle lines i0 = Some (Emitted (emit q opts answers) a')" .
    from visited_iterations [OF v t] obtain ti where ti: "iterations lines i0 = Some ti"
      and sub: "set ti \<subseteq> set t" by blast
    from iterations_head [OF b cy ti] sub have "Emitted (emit q opts answers) a' \<in> set t" by blast
    then have "emit q opts answers \<in> set cards" unfolding cards by (rule emitted_in)
    then show ?thesis unfolding e .
  qed
  from A B show ?thesis unfolding lines_def by blast
qed

definition answerless :: "jstring list" where
  "answerless = [ascii ''Q'', ascii ''A. x'', ascii ''B. y'']"

definition card_answerless :: flashcard where
  "card_answerless =
     \<lparr>question = ascii ''Q'', options = [ascii ''A. x'', ascii ''B. y''],
      answer = UNKNOWN, explanation = None\<rparr>"

lemma parse_answerless: "parseDocxContent (join [LF] answerless) = Some [card_answerless]"
  by (simp add: answerless_def card_answerless_def engine_eval)

lemma candidate_answerless:
  "candidate (to_lines (join [LF] answerless)) 0 = Some (ascii ''Q'', [ascii ''A. x'', ascii ''B. y''], [], 3)"
  by (simp add: answerless_def candidate_def engine_eval)

theorem emitted_cards_valid_witness:
  "parseDocxContent (join [LF] answerless) = Some [card_answerless]
   \<and> visited (to_lines (join [LF] answerless)) 0
   \<and> 0 < length (to_lines (join [LF] answerless))
   \<and> candidate (to_lines (join [LF] answerless)) 0
       = Some (ascii ''Q'', [ascii ''A. x'', ascii ''B. y''], [], 3)
   \<and> trim (join [LF] []) = []
   \<and> card_answerless \<in> set [card_answerless]
   \<and> question card_answerless \<noteq> []
   \<and> answer card_answerless = UNKNOWN
   \<and> answer card_answerless \<noteq> []
   \<and> length (options card_answerless) = 2
   \<and> explanation card_answerless = None"
proof -
  have l: "0 < length (to_lines (join [LF] answerless))"
    by (simp add: answerless_def engine_eval)
  have m: "card_answerless \<in> set [card_answerless]" by simp
  have j: "trim (join [LF] []) = []" by (simp add: trim_def trimEnd_def)
  from emitted_cards_valid [OF parse_answerless] m
  have "question card_answerless \<noteq> [] \<and> answer card_answerless \<noteq> []" by blast
  moreover from emitted_cards_valid [OF parse_answerless] visited_first l candidate_answerless
  have "\<lparr>question = ascii ''Q'', options = [ascii ''A. x'', ascii ''B. y''],
          answer = (if trim (join [LF] []) = [] then UNKNOWN else trim (join [LF] [])),
          explanation = None\<rparr> \<in> set [card_answerless]" by blast
  ultimately show ?thesis
    using parse_answerless visited_first l candidate_answerless j
    by (simp add: card_answerless_def)
qed

definition card_B_four :: flashcard where
  "card_B_four =
     \<lparr>question = ascii ''What is 2+2?'',
      options = [ascii ''A. 3'', ascii ''B. 4'', ascii ''C. 5'', ascii ''D. 6''],
      answer = ascii ''B. 4'',
      explanation = None\<rparr>"

lemma parse_B_four: "parseDocxContent (join [LF] scenario_B_four) = Some [card_B_four]"
  by (simp add: scenario_defs card_B_four_def engine_eval)

text \<open>
  C10 (options). Every record returned by \<open>parseDocxContent\<close> has two, three or four
  options; a record without options is never returned.
\<close>

theorem emitted_cards_two_to_four_options:
  assumes "parseDocxContent raw = Some cards" and "c \<in> set cards"
  shows "2 \<le> length (options c) \<and> length (options c) \<le> 4"
proof -
  from parse_cards [OF assms] obtain q opts answers where
    c: "c = emit q opts answers" "2 \<le> length opts" "length opts \<le> 4"
    by blast
  then show ?thesis by (simp add: emit_def Let_def)
qed

theorem emitted_cards_two_to_four_options_witness:
  "parseDocxContent (join [LF] scenario_B_four) = Some [card_B_four]
   \<and> card_B_four \<in> set [card_B_four]
   \<and> 2 \<le> length (options card_B_four) \<and> length (options card_B_four) \<le> 4"
proof -
  have m: "card_B_four \<in> set [card_B_four]" by simp
  from emitted_cards_two_to_four_options [OF parse_B_four m] parse_B_four m show ?thesis
    by simp
qed

text \<open>
  C8 (totality). No read \<open>lines[k]\<close> of the engine is out of range: every iteration of
  the outer loop returns an outcome, and \<open>parseDocxContent\<close> returns a list of records
  for every raw text, also for the text \<open>normalizeMcqText\<close> produces (the two are
  chained by the upload handler). The normalizer itself is a total function on strings.
\<close>

theorem engine_total:
  "(\<exists>st. cycle lines i = Some st)
   \<and> (\<exists>cards. parseDocxContent raw = Some cards)
   \<and> (\<exists>cards. parseDocxContent (normalizeMcqText raw) = Some cards)"
  using parse_total cycle_total by blast


lemma trimEnd_last: "trimEnd s \<noteq> [] \<Longrightarrow> \<not> is_space (last (trimEnd s))"
proof -
  assume a: "trimEnd s \<noteq> []"
  then have "dropWhile is_space (rev s) \<noteq> []" by (simp add: trimEnd_def)
  then have "\<not> is_space (hd (dropWhile is_space (rev s)))" by (rule hd_dropWhile)
  with a show ?thesis by (simp add: trimEnd_def last_rev)
qed

lemma trimEnd_id: "s = [] \<or> \<not> is_space (last s) \<Longrightarrow> trimEnd s = s"
proof (cases "s = []")
  case True
  then show ?thesis by (simp add: trimEnd_def)
next
  case False
  assume "s = [] \<or> \<not> is_space (last s)"
  with False have "\<not> is_space (hd (rev s))" by (simp add: hd_rev)
  with False have "dropWhile is_space (rev s) = rev s"
    by (cases "rev s") simp_all
  then show ?thesis by (simp add: trimEnd_def)
qed

lemma trim_idem: "trim (trim s) = trim s"
proof -
  let ?t = "trimEnd s"
  let ?u = "dropWhile is_space ?t"
  have "?u = [] \<or> \<not> is_space (last ?u)"
  proof (cases "?u = []")
    case True
    then show ?thesis by simp
  next
    case False
    then have t: "?t \<noteq> []" by auto
    have "?t = takeWhile is_space ?t @ ?u" by simp
    with False have "last ?t = last ?u" by (metis last_appendR)
    with trimEnd_last [OF t] show ?thesis by simp
  qed
  then have "trimEnd ?u = ?u" by (rule trimEnd_id)
  then show ?thesis by (simp add: trim_def)
qed

lemma isNoiseLine_trim: "isNoiseLine (trim s) = isNoiseLine s"
  by (simp add: isNoiseLine_def trim_idem)

lemma trim_Nil_iff: "trim s = [] \<longleftrightarrow> (\<forall>c\<in>set s. is_space c)"
proof
  assume "trim s = []"
  then have a: "\<forall>c\<in>set (dropWhile is_space (rev s)). is_space c"
    by (simp add: trim_def trimEnd_def)
  have "dropWhile is_space (rev s) = []"
  proof (rule ccontr)
    assume n: "dropWhile is_space (rev s) \<noteq> []"
    then have "\<not> is_space (hd (dropWhile is_space (rev s)))" by (rule hd_dropWhile)
    moreover from n have "hd (dropWhile is_space (rev s)) \<in> set (dropWhile is_space (rev s))"
      by simp
    ultimately show False using a by blast
  qed
  then show "\<forall>c\<in>set s. is_space c" by simp
next
  assume "\<forall>c\<in>set s. is_space c"
  then have d: "dropWhile is_space (rev s) = []" by simp
  show "trim s = []" unfolding trim_def trimEnd_def d by simp
qed

lemma not_noise_nonblank: "\<not> isNoiseLine s \<Longrightarrow> \<exists>c\<in>set (trim s). \<not> is_space c"
proof -
  assume "\<not> isNoiseLine s"
  then have "trim s \<noteq> []" by (auto simp: isNoiseLine_def Let_def split: if_splits)
  then have "trim (trim s) \<noteq> []" by (simp add: trim_idem)
  then show ?thesis by (simp add: trim_Nil_iff)
qed

lemma set_join_first: "set x \<subseteq> set (join sep (x # xs))"
  by (cases xs) simp_all

lemma option_line_not_noise: "isOptionLine (trim s) \<Longrightarrow> \<not> isNoiseLine (trim s)"
proof -
  assume o: "isOptionLine (trim s)"
  then obtain c m r where t: "trim s = c # m # r" and c: "is_AD c" and m: "is_marker m"
    by (auto simp: isOptionLine_def split: list.splits)
  have "\<not> isNoiseLine (trim s)"
    unfolding isNoiseLine_def trim_idem Let_def
    using t c m by (auto simp: ascii_def is_AD_def is_rule_unit_def)
  then show ?thesis .
qed

text \<open>Where the loops stop.\<close>

lemma skip_noise_stop:
  "skip_noise lines k = Some k' \<Longrightarrow> k \<le> length lines \<Longrightarrow>
     k' = length lines \<or> (k' < length lines \<and> \<not> isNoiseLine (lines ! k'))"
proof (induction lines k rule: skip_noise.induct)
  case (1 lines k)
  show ?case
  proof (cases "k < length lines")
    case False
    with "1.prems" show ?thesis by (simp add: skip_noise.simps [of lines k])
  next
    case True
    note l = line_at_Some [OF True]
    from "1.prems" True l "1.IH" [OF True l] show ?thesis
      by (auto simp: skip_noise.simps [of lines k] split: if_splits)
  qed
qed

lemma next_is_option_stop:
  "next_is_option lines k0 = Some (k, True) \<Longrightarrow> k < length lines \<and> isOptionLine (trim (lines ! k))"
  by (auto simp: next_is_option_def option_at_def line_at_def split: bind_splits if_splits)

lemma collect_question_stop:
  "collect_question lines j qLines = Some (j', qLines') \<Longrightarrow> j \<le> length lines \<Longrightarrow>
     j' = length lines \<or> (j' < length lines \<and> isOptionLine (trim (lines ! j')))"
proof (induction lines j qLines rule: collect_question.induct)
  case (1 lines j qLines)
  show ?case
  proof (cases "j < length lines")
    case False
    with "1.prems" show ?thesis by (simp add: collect_question.simps [of lines j qLines])
  next
    case True
    note l = line_at_Some [OF True]
    obtain k b where kb: "next_is_option lines (j + 1) = Some (k, b)"
      using next_is_option_total by blast
    note ih1 = "1.IH"(1) [OF True l refl]
    note ih2 = "1.IH"(2) [OF True l refl _ _ kb refl]
    from "1.prems" True l kb ih1 ih2 next_is_option_stop [of lines "j + 1" k] show ?thesis
      by (auto simp: collect_question.simps [of lines j qLines] Let_def
               split: if_splits)
  qed
qed

lemma collect_question_prefix:
  "collect_question lines j qLines = Some (j', qLines') \<Longrightarrow> \<exists>more. qLines' = qLines @ more"
proof (induction lines j qLines rule: collect_question.induct)
  case (1 lines j qLines)
  show ?case
  proof (cases "j < length lines")
    case False
    with "1.prems" show ?thesis by (simp add: collect_question.simps [of lines j qLines])
  next
    case True
    note l = line_at_Some [OF True]
    obtain k b where kb: "next_is_option lines (j + 1) = Some (k, b)"
      using next_is_option_total by blast
    note ih1 = "1.IH"(1) [OF True l refl]
    note ih2 = "1.IH"(2) [OF True l refl _ _ kb refl]
    from "1.prems" True l kb ih1 ih2 show ?thesis
      by (auto simp: collect_question.simps [of lines j qLines] Let_def
               split: if_splits)
  qed
qed

text \<open>
  A question that starts at a line which is not noise is empty only when that line is
  an option line, and then the collection stops on it.
\<close>

lemma collect_question_empty:
  assumes q: "collect_question lines i [] = Some (j, qLines)"
    and i: "i < length lines" and n: "\<not> isNoiseLine (lines ! i)"
    and e: "trim (join [SP] qLines) = []"
  shows "j = i \<and> isOptionLine (trim (lines ! i))"
proof -
  note l = line_at_Some [OF i]
  have nn: "\<not> isNoiseLine (trim (lines ! i))"
    using n by (simp add: isNoiseLine_trim)
  show ?thesis
  proof (cases "isOptionLine (trim (lines ! i))")
    case True
    with q i l nn show ?thesis
      by (simp add: collect_question.simps [of lines i "[]"] Let_def)
  next
    case False
    obtain k b where kb: "next_is_option lines (i + 1) = Some (k, b)"
      using next_is_option_total by blast
    have "\<exists>more. qLines = [trim (lines ! i)] @ more"
    proof (cases b)
      case True
      with q i l nn False kb show ?thesis
        by (simp add: collect_question.simps [of lines i "[]"] Let_def)
    next
      case b: False
      with q i l nn False kb
      have "collect_question lines (Suc i) [trim (lines ! i)] = Some (j, qLines)"
        by (simp add: collect_question.simps [of lines i "[]"] Let_def)
      then show ?thesis by (rule collect_question_prefix)
    qed
    then obtain more where m: "qLines = trim (lines ! i) # more" by auto
    from not_noise_nonblank [OF nn] obtain c where
      c: "c \<in> set (trim (lines ! i))" "\<not> is_space c"
      by (auto simp: trim_idem)
    from c(1) have "c \<in> set (join [SP] qLines)"
      using set_join_first [of "trim (lines ! i)" "[SP]" more] by (auto simp: m)
    with c(2) e show ?thesis by (auto simp: trim_Nil_iff)
  qed
qed

lemma absorb_option_stop:
  "absorb_option lines k opt = Some (k', opt') \<Longrightarrow> k \<le> length lines \<Longrightarrow>
     k' = length lines \<or> (k' < length lines \<and> isOptionLine (trim (lines ! k')))"
proof (induction lines k opt rule: absorb_option.induct)
  case (1 lines k opt)
  show ?case
  proof (cases "k < length lines")
    case False
    with "1.prems" show ?thesis by (simp add: absorb_option.simps [of lines k opt])
  next
    case True
    note l = line_at_Some [OF True]
    note ih = "1.IH"(1) [OF True l refl] "1.IH"(2) [OF True l refl]
    from "1.prems" True l ih show ?thesis
      by (auto simp: absorb_option.simps [of lines k opt] Let_def split: if_splits)
  qed
qed

text \<open>
  Option collection that starts on an option line ends with one option only when that
  option runs to the end of the input.
\<close>

lemma collect_options_few:
  assumes os: "collect_options lines j [] = Some (j', opts)"
    and j: "j < length lines" and o: "isOptionLine (trim (lines ! j))"
    and few: "length opts < 2"
  shows "j' = length lines"
proof -
  note l = line_at_Some [OF j]
  note nn = option_line_not_noise [OF o]
  obtain k opt where ko: "absorb_option lines (j + 1) (trim (lines ! j)) = Some (k, opt)"
    using absorb_option_total by (metis surj_pair)
  from os j l nn o ko have rest: "collect_options lines k [opt] = Some (j', opts)"
    by (simp add: collect_options.simps [of lines j "[]"] Let_def)
  from j have "j + 1 \<le> length lines" by simp
  from absorb_option_stop [OF ko this]
  show ?thesis
  proof
    assume "k = length lines"
    with rest show ?thesis by (simp add: collect_options.simps [of lines "length lines" "[opt]"])
  next
    assume k: "k < length lines \<and> isOptionLine (trim (lines ! k))"
    then have lk: "line_at lines k = Some (lines ! k)" by (simp add: line_at_def)
    from k have nk: "\<not> isNoiseLine (trim (lines ! k))" by (simp add: option_line_not_noise)
    obtain k2 opt2 where ko2: "absorb_option lines (k + 1) (trim (lines ! k)) = Some (k2, opt2)"
      using absorb_option_total by (metis surj_pair)
    from rest k lk nk ko2 have "collect_options lines k2 [opt, opt2] = Some (j', opts)"
      by (simp add: collect_options.simps [of lines k "[opt]"] Let_def)
    from collect_options_mono [OF this] few show ?thesis by simp
  qed
qed

text \<open>The outcomes that discard a record candidate: the three \<open>continue\<close>s.\<close>

fun discarded :: "step \<Rightarrow> bool" where
  "discarded (NoOptions i) = True"
| "discarded (EmptyQuestion i) = True"
| "discarded (FewOptions i) = True"
| "discarded st = False"

text \<open>
  C6, as stated: a discarded candidate does not always leave the cursor one line past
  its start. On the two lines \<open>Q\<close>, \<open>x\<close> the candidate starts at line 0, no option
  line follows, and the cursor is set to 2.
\<close>

theorem discard_one_past_start_counterexample:
  "\<not> (\<forall>lines i0 i st.
        skip_noise lines i0 = Some i \<and> i < length lines \<and> cycle lines i0 = Some st \<and> discarded st
        \<longrightarrow> cursor st = i + 1)"
proof
  assume a: "\<forall>lines i0 i st.
        skip_noise lines i0 = Some i \<and> i < length lines \<and> cycle lines i0 = Some st \<and> discarded st
        \<longrightarrow> cursor st = i + 1"
  have "skip_noise [ascii ''Q'', ascii ''x''] 0 = Some 0"
    by (simp add: engine_eval)
  moreover have "cycle [ascii ''Q'', ascii ''x''] 0 = Some (NoOptions 2)"
    by (simp add: engine_eval)
  ultimately have "cursor (NoOptions 2) = 0 + 1"
    using a [rule_format, of "[ascii ''Q'', ascii ''x'']" 0 0 "NoOptions 2"] by simp
  then show False by simp
qed

text \<open>
  C6, amended. Let \<open>i\<close> be the start of the candidate, the first line from the cursor
  on that is not noise. When the question is empty (the candidate starts on an option
  line) the cursor is set to \<open>i + 1\<close>. When no option line follows the candidate the
  cursor is set to the end of the input, \<open>lines.length\<close>
  (\<open>i = Math.max(i + 1, j)\<close> with \<open>j = lines.length\<close>). When fewer than two options
  were collected the single option has run to the end of the input and the cursor is
  set to \<open>lines.length + 1\<close> (\<open>i = j + 1\<close>).
\<close>

theorem discard_cursor:
  assumes i: "skip_noise lines i0 = Some i" and lt: "i < length lines"
    and st: "cycle lines i0 = Some st"
  shows "(case st of
            NoOptions n \<Rightarrow> n = length lines
          | EmptyQuestion n \<Rightarrow> n = i + 1
          | FewOptions n \<Rightarrow> n = length lines + 1
          | _ \<Rightarrow> True)"
proof -
  obtain j qLines where q: "collect_question lines i [] = Some (j, qLines)"
    using collect_question_total by (metis surj_pair)
  obtain none where n: "no_option_at lines j = Some none"
    using no_option_at_total by blast
  obtain j' opts where os: "collect_options lines j [] = Some (j', opts)"
    using collect_options_total by (metis surj_pair)
  obtain a where a: "skip_noise lines j' = Some a"
    using skip_noise_total by blast
  obtain a' answers where ans: "collect_answers lines a [] = Some (a', answers)"
    using collect_answers_total by (metis surj_pair)
  from st lt have st': "st = (if none then NoOptions (max (i + 1) j)
      else if trim (join [SP] qLines) = [] then EmptyQuestion (j + 1)
      else if length opts < 2 then FewOptions (j' + 1)
      else Emitted (emit (trim (join [SP] qLines)) opts answers) a')"
    by (simp add: cycle_def i q n os a ans Let_def split: if_splits)
  have i0: "i0 \<le> length lines"
    using skip_noise_mono [OF i] lt by simp
  have ni: "\<not> isNoiseLine (lines ! i)"
    using skip_noise_stop [OF i i0] lt by simp
  have jstop: "j = length lines \<or> (j < length lines \<and> isOptionLine (trim (lines ! j)))"
    using collect_question_stop [OF q] lt by simp
  show ?thesis
  proof (cases none)
    case True
    with n jstop have "j = length lines"
      by (auto simp: no_option_at_def line_at_def split: if_splits)
    with True st' lt show ?thesis by (simp add: max_def)
  next
    case False
    with n jstop have jo: "j < length lines" "isOptionLine (trim (lines ! j))"
      by (auto simp: no_option_at_def line_at_def split: if_splits)
    show ?thesis
    proof (cases "trim (join [SP] qLines) = []")
      case True
      from collect_question_empty [OF q lt ni True] have "j = i" by simp
      with True False st' show ?thesis by simp
    next
      case nonempty: False
      show ?thesis
      proof (cases "length opts < 2")
        case True
        from collect_options_few [OF os jo True] have "j' = length lines" .
        with True nonempty False st' show ?thesis by simp
      next
        case False
        with nonempty \<open>\<not> none\<close> st' show ?thesis by simp
      qed
    qed
  qed
qed

theorem discard_cursor_witness:
  "skip_noise [ascii ''Q'', ascii ''x''] 0 = Some 0
   \<and> cycle [ascii ''Q'', ascii ''x''] 0 = Some (NoOptions (length [ascii ''Q'', ascii ''x'']))
   \<and> skip_noise [ascii ''A. x'', ascii ''Q''] 0 = Some 0
   \<and> cycle [ascii ''A. x'', ascii ''Q''] 0 = Some (EmptyQuestion (0 + 1))
   \<and> skip_noise [ascii ''Q'', ascii ''A. x'', ascii ''y''] 0 = Some 0
   \<and> cycle [ascii ''Q'', ascii ''A. x'', ascii ''y''] 0
       = Some (FewOptions (length [ascii ''Q'', ascii ''A. x'', ascii ''y''] + 1))"
proof -
  have s1: "skip_noise [ascii ''Q'', ascii ''x''] 0 = Some 0"
    and c1: "cycle [ascii ''Q'', ascii ''x''] 0 = Some (NoOptions 2)"
    and s2: "skip_noise [ascii ''A. x'', ascii ''Q''] 0 = Some 0"
    and c2: "cycle [ascii ''A. x'', ascii ''Q''] 0 = Some (EmptyQuestion 1)"
    and s3: "skip_noise [ascii ''Q'', ascii ''A. x'', ascii ''y''] 0 = Some 0"
    and c3: "cycle [ascii ''Q'', ascii ''A. x'', ascii ''y''] 0 = Some (FewOptions 4)"
    by (simp_all add: engine_eval)
  from discard_cursor [OF s1 _ c1] discard_cursor [OF s2 _ c2] discard_cursor [OF s3 _ c3]
    s1 c1 s2 c2 s3 c3
  show ?thesis by simp
qed


section \<open>The viewer's load path\<close>

text \<open>
  The value \<open>res.json()\<close> resolves to. A number is given by the text \<open>String()\<close>
  renders for it (\<open>0\<close> for both zeros): number formatting is floating point and
  outside this model. An object is the list of its own properties; \<open>JSON.parse\<close> keeps
  one binding for a key.
\<close>

datatype json =
    JNull
  | JBool bool
  | JNum jstring
  | JStr jstring
  | JArr "json list"
  | JObj "(jstring \<times> json) list"

text \<open>What \<open>fetch\<close> and \<open>res.json()\<close> deliver: a rejected fetch, a response that is not ok
  with its status, a body that is no JSON, or the parsed value.\<close>

datatype fetched =
    FetchRejected
  | HttpNotOk nat
  | JsonRejected
  | Parsed json

text \<open>The exceptions of the load path; each ends in the \<open>catch\<close> that sets \<open>loadError\<close>.\<close>

datatype load_error =
    FetchError
  | HttpError nat
  | JsonError
  | NotAnArray
  | NoValidCards
  | TypeError

text \<open>
  \<open>x?.name\<close> for the names the viewers read (\<open>question\<close>, \<open>options\<close>, \<open>answer\<close>,
  \<open>explanation\<close>), which no prototype defines: \<open>None\<close> is \<open>undefined\<close>.
\<close>

fun get_prop :: "json \<Rightarrow> jstring \<Rightarrow> json option" where
  "get_prop (JObj kvs) name = map_of kvs name"
| "get_prop x name = None"

text \<open>Sequencing: an exception ends the computation, a value is passed on.\<close>

definition and_then :: "'x + 'v \<Rightarrow> ('v \<Rightarrow> 'x + 'w) \<Rightarrow> 'x + 'w" where
  "and_then r f = (case r of Inl e \<Rightarrow> Inl e | Inr v \<Rightarrow> f v)"

text \<open>A list of results in order; the first exception wins.\<close>

fun in_order :: "('x + 'v) list \<Rightarrow> 'x + 'v list" where
  "in_order (r # rs) = and_then r (\<lambda>v. and_then (in_order rs) (\<lambda>vs. Inr (v # vs)))"
| "in_order [] = Inr []"

text \<open>
  \<open>String(v)\<close>. An array is its elements joined by commas, \<open>null\<close> elements rendered
  empty. An object is \<open>[object Object]\<close>, unless it has an own property \<open>toString\<close>:
  that is no function in parsed JSON, and the conversion raises a TypeError.
\<close>

fun js_String :: "json \<Rightarrow> load_error + jstring" where
  "js_String JNull = Inr (ascii ''null'')"
| "js_String (JBool b) = Inr (if b then ascii ''true'' else ascii ''false'')"
| "js_String (JNum t) = Inr t"
| "js_String (JStr s) = Inr s"
| "js_String (JArr xs) =
     and_then (in_order (map (\<lambda>x. if x = JNull then Inr [] else js_String x) xs))
       (\<lambda>ss. Inr (join (ascii '','') ss))"
| "js_String (JObj kvs) =
     (if map_of kvs (ascii ''toString'') = None then Inr (ascii ''[object Object]'')
      else Inl TypeError)"

subsection \<open>App.tsx\<close>

record viewer_card =
  vquestion :: jstring
  voptions :: "jstring list option"
  vanswer :: jstring
  vexplanation :: "jstring option"

text \<open>\<open>String(v ?? '').trim()\<close>.\<close>

definition coerce_text :: "json option \<Rightarrow> load_error + jstring" where
  "coerce_text v =
     (case v of
        None \<Rightarrow> Inr (trim [])
      | Some w \<Rightarrow>
          if w = JNull then Inr (trim [])
          else and_then (js_String w) (\<lambda>s. Inr (trim s)))"

text \<open>\<open>Array.isArray(x?.options) ? x.options.map(v => String(v)) : undefined\<close>.\<close>

definition coerce_options :: "json option \<Rightarrow> load_error + jstring list option" where
  "coerce_options v =
     (case v of
        Some (JArr vs) \<Rightarrow> and_then (in_order (map js_String vs)) (\<lambda>ss. Inr (Some ss))
      | _ \<Rightarrow> Inr None)"

text \<open>\<open>x?.explanation == null ? null : String(x.explanation)\<close>.\<close>

definition coerce_explanation :: "json option \<Rightarrow> load_error + jstring option" where
  "coerce_explanation v =
     (case v of
        None \<Rightarrow> Inr None
      | Some w \<Rightarrow>
          if w = JNull then Inr None
          else and_then (js_String w) (\<lambda>s. Inr (Some s)))"

text \<open>The function mapped over the array; the properties are computed in the order written.\<close>

definition normalize_card :: "json \<Rightarrow> load_error + viewer_card" where
  "normalize_card x =
     and_then (coerce_text (get_prop x (ascii ''question''))) (\<lambda>q.
     and_then (coerce_options (get_prop x (ascii ''options''))) (\<lambda>os.
     and_then (coerce_text (get_prop x (ascii ''answer''))) (\<lambda>a.
     and_then (coerce_explanation (get_prop x (ascii ''explanation''))) (\<lambda>ex.
       Inr \<lparr>vquestion = q, voptions = os, vanswer = a, vexplanation = ex\<rparr>))))"

text \<open>\<open>c => c.question && c.answer\<close> on strings: both are not empty.\<close>

definition card_ok :: "viewer_card \<Rightarrow> bool" where
  "card_ok c \<longleftrightarrow> vquestion c \<noteq> [] \<and> vanswer c \<noteq> []"

text \<open>
  \<open>load\<close>: \<open>Inl\<close> is the state with \<open>loadError\<close> set and no cards (the error screen is
  rendered), \<open>Inr\<close> the state with the cards set.
\<close>

definition load :: "fetched \<Rightarrow> load_error + viewer_card list" where
  "load f =
     (case f of
        FetchRejected \<Rightarrow> Inl FetchError
      | HttpNotOk status \<Rightarrow> Inl (HttpError status)
      | JsonRejected \<Rightarrow> Inl JsonError
      | Parsed data \<Rightarrow>
          (case data of
             JArr xs \<Rightarrow>
               and_then (in_order (map normalize_card xs)) (\<lambda>cs.
                 let normalized = filter card_ok cs
                 in if normalized = [] then Inl NoValidCards else Inr normalized)
           | _ \<Rightarrow> Inl NotAnArray))"

subsection \<open>The second viewer file\<close>

text \<open>Truthiness of \<open>card.question\<close> and \<open>card.answer\<close>, read from the parsed value as it is.\<close>

definition truthy :: "json option \<Rightarrow> bool" where
  "truthy v =
     (case v of
        None \<Rightarrow> False
      | Some JNull \<Rightarrow> False
      | Some (JBool b) \<Rightarrow> b
      | Some (JNum t) \<Rightarrow> t \<noteq> ascii ''0''
      | Some (JStr s) \<Rightarrow> s \<noteq> []
      | Some (JArr xs) \<Rightarrow> True
      | Some (JObj kvs) \<Rightarrow> True)"

text \<open>
  \<open>data.filter(card => card.question && card.answer)\<close> on an array: reading a property
  of \<open>null\<close> raises a TypeError.
\<close>

fun filter_valid :: "json list \<Rightarrow> load_error + json list" where
  "filter_valid [] = Inr []"
| "filter_valid (c # cs) =
     (if c = JNull then Inl TypeError
      else
        and_then (filter_valid cs) (\<lambda>vs.
          Inr (if truthy (get_prop c (ascii ''question'')) \<and> truthy (get_prop c (ascii ''answer''))
               then c # vs else vs)))"

text \<open>
  \<open>loadCards\<close>: \<open>Inl\<close> is the state with \<open>loadError\<close> set, \<open>Inr\<close> the state with the
  cards set. A value that is no array has no callable \<open>filter\<close>, and the call raises a
  TypeError.
\<close>

definition loadCards :: "fetched \<Rightarrow> load_error + json list" where
  "loadCards f =
     (case f of
        FetchRejected \<Rightarrow> Inl FetchError
      | HttpNotOk status \<Rightarrow> Inl (HttpError status)
      | JsonRejected \<Rightarrow> Inl JsonError
      | Parsed data \<Rightarrow>
          (case data of
             JArr xs \<Rightarrow> filter_valid xs
           | _ \<Rightarrow> Inl TypeError))"


lemma filter_valid_null: "JNull \<in> set xs \<Longrightarrow> filter_valid xs = Inl TypeError"
  by (induction xs) (auto simp: and_then_def split: sum.splits)

lemma filter_valid_ok:
  "JNull \<notin> set xs \<Longrightarrow>
     filter_valid xs =
       Inr (filter (\<lambda>c. truthy (get_prop c (ascii ''question'')) \<and> truthy (get_prop c (ascii ''answer''))) xs)"
  by (induction xs) (auto simp: and_then_def)

lemma coerce_text_absent: "v = None \<or> v = Some JNull \<Longrightarrow> coerce_text v = Inr []"
  by (auto simp: coerce_text_def trim_def trimEnd_def)

lemma coerce_explanation_absent: "v = None \<or> v = Some JNull \<Longrightarrow> coerce_explanation v = Inr None"
  by (auto simp: coerce_explanation_def)

lemma coerce_options_not_array: "\<forall>vs. v \<noteq> Some (JArr vs) \<Longrightarrow> coerce_options v = Inr None"
proof (cases v)
  case None
  then show ?thesis by (simp add: coerce_options_def)
next
  case (Some w)
  assume "\<forall>vs. v \<noteq> Some (JArr vs)"
  with Some show ?thesis by (cases w) (simp_all add: coerce_options_def)
qed

lemma normalize_card_fields:
  "normalize_card x = Inr c \<Longrightarrow>
     coerce_text (get_prop x (ascii ''question'')) = Inr (vquestion c)
     \<and> coerce_options (get_prop x (ascii ''options'')) = Inr (voptions c)
     \<and> coerce_text (get_prop x (ascii ''answer'')) = Inr (vanswer c)
     \<and> coerce_explanation (get_prop x (ascii ''explanation'')) = Inr (vexplanation c)"
  unfolding normalize_card_def and_then_def by (auto split: sum.splits)

text \<open>
  C9, as stated, fails on the second viewer file: for the empty array no element
  survives and \<open>loadCards\<close> sets no load error; and an element is kept as it is, its
  question not trimmed and its \<open>options\<close> that is no array not dropped.
\<close>

theorem second_viewer_counterexample:
  "\<not> (\<exists>e. loadCards (Parsed (JArr [])) = Inl e)
   \<and> loadCards (Parsed (JArr [JObj [(ascii ''question'', JStr (ascii '' q '')),
                                     (ascii ''answer'', JStr (ascii ''a'')),
                                     (ascii ''options'', JStr (ascii ''x''))]]))
       = Inr [JObj [(ascii ''question'', JStr (ascii '' q '')),
                    (ascii ''answer'', JStr (ascii ''a'')),
                    (ascii ''options'', JStr (ascii ''x''))]]"
  by (simp add: loadCards_def truthy_def ascii_def and_then_def)

text \<open>
  C9, amended. The load path of \<open>App.tsx\<close>: a failed fetch, a response that is not ok
  and a body that is no JSON give a load error; a value that is no array gives a load
  error; an element's missing or \<open>null\<close> question and answer become the empty string,
  an \<open>options\<close> that is no array is dropped and a missing or \<open>null\<close> explanation is \<open>null\<close>;
  the cards set are the normalized elements with a question and an answer that are not
  empty, and when none is left a load error is set instead. The \<open>loadCards\<close> of the
  second viewer file sets a load error for the same three failures, for a value that is
  no array and for an array with a \<open>null\<close> element; otherwise it sets the elements whose
  question and answer are truthy, as they are, also when none is left.
\<close>

theorem viewer_load_contract:
  "load FetchRejected = Inl FetchError
   \<and> load (HttpNotOk status) = Inl (HttpError status)
   \<and> load JsonRejected = Inl JsonError
   \<and> ((\<forall>xs. data \<noteq> JArr xs) \<longrightarrow> load (Parsed data) = Inl NotAnArray)
   \<and> (normalize_card x = Inr c \<longrightarrow>
        ((get_prop x (ascii ''question'') = None \<or> get_prop x (ascii ''question'') = Some JNull)
            \<longrightarrow> vquestion c = [])
        \<and> ((get_prop x (ascii ''answer'') = None \<or> get_prop x (ascii ''answer'') = Some JNull)
            \<longrightarrow> vanswer c = [])
        \<and> ((\<forall>vs. get_prop x (ascii ''options'') \<noteq> Some (JArr vs)) \<longrightarrow> voptions c = None)
        \<and> ((get_prop x (ascii ''explanation'') = None \<or> get_prop x (ascii ''explanation'') = Some JNull)
            \<longrightarrow> vexplanation c = None))
   \<and> (load (Parsed (JArr xs)) = Inr cards \<longrightarrow>
        (\<exists>cs. in_order (map normalize_card xs) = Inr cs \<and> cards = filter card_ok cs)
        \<and> cards \<noteq> []
        \<and> (\<forall>c\<in>set cards. vquestion c \<noteq> [] \<and> vanswer c \<noteq> []))
   \<and> (in_order (map normalize_card ys) = Inr cs \<and> filter card_ok cs = []
        \<longrightarrow> load (Parsed (JArr ys)) = Inl NoValidCards)
   \<and> loadCards FetchRejected = Inl FetchError
   \<and> loadCards (HttpNotOk status) = Inl (HttpError status)
   \<and> loadCards JsonRejected = Inl JsonError
   \<and> ((\<forall>xs. data \<noteq> JArr xs) \<longrightarrow> loadCards (Parsed data) = Inl TypeError)
   \<and> (JNull \<in> set zs \<longrightarrow> loadCards (Parsed (JArr zs)) = Inl TypeError)
   \<and> (JNull \<notin> set ws \<longrightarrow>
        loadCards (Parsed (JArr ws)) =
          Inr (filter (\<lambda>c. truthy (get_prop c (ascii ''question'')) \<and> truthy (get_prop c (ascii ''answer''))) ws))"
proof -
  have a1: "load FetchRejected = Inl FetchError"
    "load (HttpNotOk status) = Inl (HttpError status)"
    "load JsonRejected = Inl JsonError"
    by (simp_all add: load_def)
  have a2: "(\<forall>xs. data \<noteq> JArr xs) \<longrightarrow> load (Parsed data) = Inl NotAnArray"
    by (cases data) (simp_all add: load_def)
  have a3: "normalize_card x = Inr c \<longrightarrow>
        ((get_prop x (ascii ''question'') = None \<or> get_prop x (ascii ''question'') = Some JNull)
            \<longrightarrow> vquestion c = [])
        \<and> ((get_prop x (ascii ''answer'') = None \<or> get_prop x (ascii ''answer'') = Some JNull)
            \<longrightarrow> vanswer c = [])
        \<and> ((\<forall>vs. get_prop x (ascii ''options'') \<noteq> Some (JArr vs)) \<longrightarrow> voptions c = None)
        \<and> ((get_prop x (ascii ''explanation'') = None \<or> get_prop x (ascii ''explanation'') = Some JNull)
            \<longrightarrow> vexplanation c = None)"
    using normalize_card_fields [of x c] coerce_text_absent coerce_options_not_array
      coerce_explanation_absent
    by (metis sum.inject(2))
  have a4: "load (Parsed (JArr xs)) = Inr cards \<longrightarrow>
        (\<exists>cs. in_order (map normalize_card xs) = Inr cs \<and> cards = filter card_ok cs)
        \<and> cards \<noteq> []
        \<and> (\<forall>c\<in>set cards. vquestion c \<noteq> [] \<and> vanswer c \<noteq> [])"
    by (auto simp: load_def Let_def card_ok_def and_then_def split: sum.splits if_splits)
  have a5: "in_order (map normalize_card ys) = Inr cs \<and> filter card_ok cs = []
        \<longrightarrow> load (Parsed (JArr ys)) = Inl NoValidCards"
    by (simp add: load_def Let_def and_then_def)
  have b1: "loadCards FetchRejected = Inl FetchError"
    "loadCards (HttpNotOk status) = Inl (HttpError status)"
    "loadCards JsonRejected = Inl JsonError"
    by (simp_all add: loadCards_def)
  have b2: "(\<forall>xs. data \<noteq> JArr xs) \<longrightarrow> loadCards (Parsed data) = Inl TypeError"
    by (cases data) (simp_all add: loadCards_def)
  have b3: "JNull \<in> set zs \<longrightarrow> loadCards (Parsed (JArr zs)) = Inl TypeError"
    by (simp add: loadCards_def filter_valid_null)
  have b4: "JNull \<notin> set ws \<longrightarrow>
        loadCards (Parsed (JArr ws)) =
          Inr (filter (\<lambda>c. truthy (get_prop c (ascii ''question'')) \<and> truthy (get_prop c (ascii ''answer''))) ws)"
    by (simp add: loadCards_def filter_valid_ok)
  from a1 a2 a3 a4 a5 b1 b2 b3 b4 show ?thesis by blast
qed


definition sample_bare :: json where
  "sample_bare = JObj [(ascii ''options'', JStr (ascii ''x''))]"

definition sample_good :: json where
  "sample_good =
     JObj [(ascii ''question'', JStr (ascii '' q '')),
           (ascii ''answer'', JNum (ascii ''5'')),
           (ascii ''options'', JStr (ascii ''x''))]"

definition empty_card :: viewer_card where
  "empty_card = \<lparr>vquestion = [], voptions = None, vanswer = [], vexplanation = None\<rparr>"

definition good_card :: viewer_card where
  "good_card = \<lparr>vquestion = ascii ''q'', voptions = None, vanswer = ascii ''5'', vexplanation = None\<rparr>"

lemmas viewer_eval =
  load_def loadCards_def normalize_card_def coerce_text_def coerce_options_def
  coerce_explanation_def card_ok_def truthy_def sample_bare_def sample_good_def
  empty_card_def good_card_def trim_def trimEnd_def is_space_def ascii_def Let_def and_then_def

theorem viewer_load_contract_witness:
  "(\<forall>xs. JStr (ascii ''x'') \<noteq> JArr xs)
   \<and> load (Parsed (JStr (ascii ''x''))) = Inl NotAnArray
   \<and> loadCards (Parsed (JStr (ascii ''x''))) = Inl TypeError
   \<and> normalize_card sample_bare = Inr empty_card
   \<and> get_prop sample_bare (ascii ''question'') = None
   \<and> get_prop sample_bare (ascii ''answer'') = None
   \<and> (\<forall>vs. get_prop sample_bare (ascii ''options'') \<noteq> Some (JArr vs))
   \<and> get_prop sample_bare (ascii ''explanation'') = None
   \<and> vquestion empty_card = [] \<and> vanswer empty_card = []
   \<and> voptions empty_card = None \<and> vexplanation empty_card = None
   \<and> load (Parsed (JArr [sample_good, JNull])) = Inr [good_card]
   \<and> in_order (map normalize_card [sample_bare, JNull]) = Inr [empty_card, empty_card]
   \<and> filter card_ok [empty_card, empty_card] = []
   \<and> load (Parsed (JArr [sample_bare, JNull])) = Inl NoValidCards
   \<and> JNull \<in> set [sample_good, JNull]
   \<and> loadCards (Parsed (JArr [sample_good, JNull])) = Inl TypeError
   \<and> JNull \<notin> set [sample_good, sample_bare]
   \<and> loadCards (Parsed (JArr [sample_good, sample_bare])) = Inr [sample_good]"
proof -
  have h1: "\<forall>xs. JStr (ascii ''x'') \<noteq> JArr xs" by simp
  have h2: "normalize_card sample_bare = Inr empty_card"
    by (simp add: viewer_eval)
  have h3: "get_prop sample_bare (ascii ''question'') = None"
    "get_prop sample_bare (ascii ''answer'') = None"
    "\<forall>vs. get_prop sample_bare (ascii ''options'') \<noteq> Some (JArr vs)"
    "get_prop sample_bare (ascii ''explanation'') = None"
    by (simp_all add: viewer_eval)
  have h4: "load (Parsed (JArr [sample_good, JNull])) = Inr [good_card]"
    by (simp add: viewer_eval)
  have h5: "in_order (map normalize_card [sample_bare, JNull]) = Inr [empty_card, empty_card]"
    "filter card_ok [empty_card, empty_card] = []"
    by (simp_all add: viewer_eval)
  have h6: "JNull \<in> set [sample_good, JNull]" "JNull \<notin> set [sample_good, sample_bare]"
    by (simp_all add: viewer_eval)
  have h7: "filter (\<lambda>c. truthy (get_prop c (ascii ''question'')) \<and> truthy (get_prop c (ascii ''answer'')))
              [sample_good, sample_bare] = [sample_good]"
    by (simp add: viewer_eval)
  note t = viewer_load_contract
    [where data = "JStr (ascii ''x'')" and x = sample_bare and c = empty_card
       and xs = "[sample_good, JNull]" and cards = "[good_card]"
       and ys = "[sample_bare, JNull]" and cs = "[empty_card, empty_card]"
       and zs = "[sample_good, JNull]" and ws = "[sample_good, sample_bare]"]
  from t h1 h2 h3 h4 h5 h6 h7 show ?thesis by simp
qed

section \<open>Idempotence of the normalizer\<close>

abbreviation dw :: "jstring \<Rightarrow> jstring" where
  "dw \<equiv> dropWhile is_space"

abbreviation tw :: "jstring \<Rightarrow> jstring" where
  "tw \<equiv> takeWhile is_space"

text \<open>
  A string on which the scan of \<open>break_before\<close> finds every match already preceded by
  exactly one line feed.
\<close>

function stable :: "(jstring \<Rightarrow> nat option) \<Rightarrow> jstring \<Rightarrow> bool" where
  "stable body s =
     (case s of
        [] \<Rightarrow> True
      | c # r \<Rightarrow>
          if c = LF then stable body r
          else
            (case body (dw r) of
               None \<Rightarrow> stable body r
             | Some n \<Rightarrow> tw r = [LF] \<and> stable body (drop n (dw r))))"
  by pat_completeness auto
termination
proof (relation "measure (\<lambda>(body, s). length s)", goal_cases)
  case 1
  show ?case by simp
next
  case (2 body s c r)
  then show ?case by simp
next
  case (3 body s c r)
  then show ?case by simp
next
  case (4 body s c r n)
  have "length (dw r) \<le> length r"
    by (rule length_dropWhile_le)
  with 4 show ?case by simp
qed

declare stable.simps [simp del]

lemma LF_space [simp]: "is_space LF"
  by (simp add: is_space_def LF_def)

lemma bb_Nil [simp]: "break_before body [] = []"
  by (simp add: break_before.simps [of body "[]"])

lemma bb_LF [simp]: "break_before body (LF # r) = LF # break_before body r"
  by (simp add: break_before.simps [of body "LF # r"])

lemma bb_none: "c \<noteq> LF \<Longrightarrow> body (dw r) = None \<Longrightarrow> break_before body (c # r) = c # break_before body r"
  by (simp add: break_before.simps [of body "c # r"])

lemma bb_some:
  "c \<noteq> LF \<Longrightarrow> body (dw r) = Some n \<Longrightarrow>
     break_before body (c # r) = c # LF # take n (dw r) @ break_before body (drop n (dw r))"
  by (simp add: break_before.simps [of body "c # r"])

lemma st_Nil [simp]: "stable body []"
  by (simp add: stable.simps [of body "[]"])

lemma st_LF [simp]: "stable body (LF # r) = stable body r"
  by (simp add: stable.simps [of body "LF # r"])

lemma st_none: "c \<noteq> LF \<Longrightarrow> body (dw r) = None \<Longrightarrow> stable body (c # r) = stable body r"
  by (simp add: stable.simps [of body "c # r"])

lemma st_some:
  "c \<noteq> LF \<Longrightarrow> body (dw r) = Some n \<Longrightarrow>
     stable body (c # r) = (tw r = [LF] \<and> stable body (drop n (dw r)))"
  by (simp add: stable.simps [of body "c # r"])

lemma bb_Cons: "\<exists>x. break_before body (c # r) = c # x"
  by (cases "c = LF"; cases "body (dw r)") (auto simp: bb_none bb_some)

lemma bb_eq_Nil [simp]: "break_before body s = [] \<longleftrightarrow> s = []"
proof (cases s)
  case Nil
  then show ?thesis by simp
next
  case (Cons c r)
  obtain x where "break_before body (c # r) = c # x"
    using bb_Cons by blast
  with Cons show ?thesis by simp
qed

lemma bb_hd: "s \<noteq> [] \<Longrightarrow> hd (break_before body s) = hd s"
proof (cases s)
  case Nil
  assume "s \<noteq> []"
  with Nil show ?thesis by simp
next
  case (Cons c r)
  obtain x where "break_before body (c # r) = c # x"
    using bb_Cons by blast
  with Cons show ?thesis by simp
qed

text \<open>A run of white space before a text at which the body does not match is copied.\<close>

lemma bb_space_prefix:
  "list_all is_space w \<Longrightarrow> body (dw z) = None \<Longrightarrow>
     break_before body (w @ z) = w @ break_before body z"
proof (induction w)
  case Nil
  then show ?case by simp
next
  case (Cons a w)
  then have dwz: "dw (w @ z) = dw z"
    by (simp add: dropWhile_append list_all_iff)
  show ?case
  proof (cases "a = LF")
    case True
    with Cons show ?thesis by simp
  next
    case False
    with Cons dwz show ?thesis by (simp add: bb_none)
  qed
qed

lemma st_space_prefix:
  "list_all is_space w \<Longrightarrow> body (dw z) = None \<Longrightarrow> stable body (w @ z) = stable body z"
proof (induction w)
  case Nil
  then show ?case by simp
next
  case (Cons a w)
  then have dwz: "dw (w @ z) = dw z"
    by (simp add: dropWhile_append list_all_iff)
  show ?case
  proof (cases "a = LF")
    case True
    with Cons show ?thesis by simp
  next
    case False
    with Cons dwz show ?thesis by (simp add: st_none)
  qed
qed

lemma tw_dw_split: "tw r = [LF] \<Longrightarrow> r = LF # dw r"
  using takeWhile_dropWhile_id [of is_space r] by simp

text \<open>A stable string is a fixed point of the scan.\<close>

lemma stable_fixed: "stable body s \<Longrightarrow> break_before body s = s"
proof (induction "length s" arbitrary: s rule: less_induct)
  case less
  show ?case
  proof (cases s)
    case Nil
    then show ?thesis by simp
  next
    case (Cons c r)
    show ?thesis
    proof (cases "c = LF")
      case True
      with Cons less.prems less.hyps [of r] show ?thesis by simp
    next
      case False
      show ?thesis
      proof (cases "body (dw r)")
        case None
        with False Cons less.prems less.hyps [of r] show ?thesis
          by (simp add: bb_none st_none)
      next
        case (Some n)
        with False Cons less.prems have t: "tw r = [LF]" and s: "stable body (drop n (dw r))"
          by (simp_all add: st_some)
        have "length (drop n (dw r)) < length s"
          using length_dropWhile_le [of is_space r] Cons by simp
        from less.hyps [OF this s] have "break_before body (drop n (dw r)) = drop n (dw r)" .
        with False Some Cons tw_dw_split [OF t] show ?thesis
          by (simp add: bb_some)
      qed
    qed
  qed
qed

text \<open>
  The result of the scan is stable, for a body that still does not match where it did
  not, and matches the same text where it did, when the scan has run over what follows.
\<close>

lemma stable_bb:
  assumes none: "\<And>r. body (dw r) = None \<Longrightarrow> body (dw (break_before body r)) = None"
    and ext: "\<And>s n. body s = Some n \<Longrightarrow>
        body (take n s @ break_before body (drop n s)) = Some n
        \<and> 0 < n \<and> n \<le> length s \<and> \<not> is_space (hd s)"
  shows "stable body (break_before body s)"
proof (induction "length s" arbitrary: s rule: less_induct)
  case less
  show ?case
  proof (cases s)
    case Nil
    then show ?thesis by simp
  next
    case (Cons c r)
    show ?thesis
    proof (cases "c = LF")
      case True
      with Cons less.hyps [of r] show ?thesis by simp
    next
      case False
      show ?thesis
      proof (cases "body (dw r)")
        case None
        from none [OF None] False Cons None less.hyps [of r] show ?thesis
          by (simp add: bb_none st_none)
      next
        case (Some n)
        define d where "d = dw r"
        define m where "m = take n d"
        define t where "t = drop n d"
        define bt where "bt = break_before body t"
        from ext [of d n] Some have e: "body (m @ bt) = Some n"
          and n: "0 < n" "n \<le> length d" and h: "\<not> is_space (hd d)"
          by (simp_all add: d_def m_def t_def bt_def)
        from n obtain a d' where d: "d = a # d'" by (cases d) auto
        with n have m: "m = a # take (n - 1) d'"
          by (cases n) (simp_all add: m_def)
        from h d have a: "\<not> is_space a" by simp
        have dwm: "dw (m @ bt) = m @ bt" using m a by simp
        have twm: "tw (LF # m @ bt) = [LF]" using m a by simp
        have len: "length m = n" using n by (simp add: m_def)
        have "length t < length s"
          using length_dropWhile_le [of is_space r] Cons n by (simp add: t_def d_def)
        from less.hyps [OF this] have st: "stable body bt" by (simp add: bt_def)
        have "stable body (c # LF # m @ bt)"
          using False e dwm twm st len
          by (subst st_some [where n = n]) simp_all
        moreover have "break_before body (c # r) = c # LF # m @ bt"
          using False Some by (simp add: bb_some m_def t_def bt_def d_def)
        ultimately have "stable body (break_before body (c # r))" by simp
        with Cons show ?thesis by simp
      qed
    qed
  qed
qed

text \<open>
  \<open>fat s s'\<close>: \<open>s'\<close> is \<open>s\<close> with white space inserted, and white space removed only
  in front of white space that stays. Every step of the normalizer is of this kind.
\<close>

inductive fat :: "jstring \<Rightarrow> jstring \<Rightarrow> bool" where
  fat_Nil: "fat [] []"
| fat_same: "fat s s' \<Longrightarrow> fat (c # s) (c # s')"
| fat_ins: "fat s s' \<Longrightarrow> is_space w \<Longrightarrow> fat s (w # s')"
| fat_del: "fat s (w' # s') \<Longrightarrow> is_space w \<Longrightarrow> is_space w' \<Longrightarrow> fat (w # s) (w' # s')"

lemma fat_refl: "fat s s"
  by (induction s) (auto intro: fat.intros)

lemma fat_Nil_right: "fat s [] \<Longrightarrow> s = []"
  by (erule fat.cases) auto

lemma fat_Cons_right:
  assumes "fat s (c # s')" and "\<not> is_space c"
  shows "\<exists>s0. s = c # s0 \<and> fat s0 s'"
  using assms by (cases rule: fat.cases) auto

lemma fat_dw: "fat s s' \<Longrightarrow> fat (dw s) (dw s')"
proof (induction rule: fat.induct)
  case fat_Nil
  then show ?case by (simp add: fat.fat_Nil)
next
  case (fat_same s s' c)
  then show ?case by (cases "is_space c") (auto intro: fat.fat_same)
next
  case (fat_ins s s' w)
  then show ?case by simp
next
  case (fat_del s w' s' w)
  then show ?case by simp
qed

lemma fat_dw_Cons:
  assumes "fat s s'" and "dw s' = c # r'"
  shows "\<exists>r. dw s = c # r \<and> fat r r'"
proof -
  from assms(2) have "\<not> is_space c"
    using hd_dropWhile [of is_space s'] by auto
  moreover from fat_dw [OF assms(1)] assms(2) have "fat (dw s) (c # r')" by simp
  ultimately show ?thesis by (rule fat_Cons_right [rotated])
qed

lemma fat_dw_Nil:
  assumes "fat s s'" and "dw s' = []"
  shows "dw s = []"
proof -
  have "fat (dw s) (dw s')" using assms(1) by (rule fat_dw)
  then have "fat (dw s) []" unfolding assms(2) .
  then show ?thesis by (rule fat_Nil_right)
qed

lemma fat_append_same: "fat a b \<Longrightarrow> fat (p @ a) (p @ b)"
  by (induction p) (auto intro: fat.fat_same)

lemma fat_del_run:
  "list_all is_space w \<Longrightarrow> fat x (w' # y) \<Longrightarrow> is_space w' \<Longrightarrow> fat (w @ x) (w' # y)"
  by (induction w) (auto intro: fat.fat_del)

lemma tw_all_space: "list_all is_space (tw r)"
  unfolding list_all_iff by (auto dest: set_takeWhileD)

lemma fat_bb: "fat s (break_before body s)"
proof (induction "length s" arbitrary: s rule: less_induct)
  case less
  show ?case
  proof (cases s)
    case Nil
    then show ?thesis by (simp add: fat.fat_Nil)
  next
    case (Cons c r)
    show ?thesis
    proof (cases "c = LF \<or> body (dw r) = None")
      case True
      have "break_before body (c # r) = c # break_before body r"
      proof (cases "c = LF")
        case True
        then show ?thesis by simp
      next
        case False
        with \<open>c = LF \<or> body (dw r) = None\<close> have "body (dw r) = None" by simp
        with False show ?thesis by (rule bb_none)
      qed
      moreover have "fat r (break_before body r)"
        using less.hyps [of r] Cons by simp
      ultimately show ?thesis using Cons by (simp add: fat.fat_same)
    next
      case False
      then obtain n where n: "c \<noteq> LF" "body (dw r) = Some n" by auto
      define d where "d = dw r"
      have "length (drop n d) < length s"
        using length_dropWhile_le [of is_space r] Cons by (simp add: d_def)
      from less.hyps [OF this] have "fat (drop n d) (break_before body (drop n d))" .
      then have "fat (take n d @ drop n d) (take n d @ break_before body (drop n d))"
        by (rule fat_append_same)
      then have "fat d (LF # take n d @ break_before body (drop n d))"
        by (simp add: fat.fat_ins)
      with tw_all_space [of r]
      have "fat (tw r @ d) (LF # take n d @ break_before body (drop n d))"
        by (rule fat_del_run) simp
      then have "fat r (LF # take n d @ break_before body (drop n d))"
        by (simp add: d_def)
      then have "fat (c # r) (c # LF # take n d @ break_before body (drop n d))"
        by (rule fat.fat_same)
      moreover have "break_before body (c # r) = c # LF # take n d @ break_before body (drop n d)"
        unfolding d_def using n by (rule bb_some)
      ultimately show ?thesis using Cons by simp
    qed
  qed
qed

subsection \<open>Collapsing blank lines\<close>

abbreviation lf_run :: "jstring \<Rightarrow> jstring" where
  "lf_run \<equiv> takeWhile (\<lambda>x. x = LF)"

abbreviation lf_rest :: "jstring \<Rightarrow> jstring" where
  "lf_rest \<equiv> dropWhile (\<lambda>x. x = LF)"

lemma cb_Nil [simp]: "collapse_blank [] = []"
  by (simp add: collapse_blank.simps [of "[]"])

lemma cb_run:
  assumes "3 \<le> length (lf_run s)"
  shows "collapse_blank s = LF # LF # collapse_blank (lf_rest s)"
proof -
  define k where "k = length (lf_run s)"
  define t where "t = lf_rest s"
  have e: "collapse_blank s =
      (case s of [] \<Rightarrow> [] | c # r \<Rightarrow> if 3 \<le> k then LF # LF # collapse_blank t else c # collapse_blank r)"
    unfolding k_def t_def by (rule collapse_blank.simps)
  from assms have k: "3 \<le> k" by (simp add: k_def)
  with k_def have "s \<noteq> []" by auto
  with e k have "collapse_blank s = LF # LF # collapse_blank t"
    by (cases s) simp_all
  then show ?thesis by (simp only: t_def)
qed

lemma cb_copy: "\<not> 3 \<le> length (lf_run (c # r)) \<Longrightarrow> collapse_blank (c # r) = c # collapse_blank r"
  by (simp add: collapse_blank.simps [of "c # r"])

lemma cb_not_LF: "c \<noteq> LF \<Longrightarrow> collapse_blank (c # r) = c # collapse_blank r"
  by (simp add: cb_copy)

lemma lf_rest_shorter: "3 \<le> length (lf_run s) \<Longrightarrow> length (lf_rest s) < length s"
proof -
  assume a: "3 \<le> length (lf_run s)"
  have "length (lf_run s) + length (lf_rest s) = length s"
    using takeWhile_dropWhile_id [of "\<lambda>x. x = LF" s] by (metis length_append)
  with a show ?thesis by simp
qed

lemma lf_run_split:
  assumes "3 \<le> length (lf_run s)"
  shows "\<exists>w. list_all is_space w \<and> s = w @ LF # lf_rest s"
proof -
  have all: "\<forall>x\<in>set (lf_run s). x = LF"
    by (auto dest: set_takeWhileD)
  from assms obtain w y where wy: "lf_run s = w @ [y]"
    by (cases "lf_run s" rule: rev_cases) auto
  from all wy have y: "y = LF" by simp
  from all wy have w: "list_all is_space w"
    by (auto simp: list_all_iff)
  have "s = lf_run s @ lf_rest s" by simp
  then have "s = w @ LF # lf_rest s" unfolding wy y by simp
  with w show ?thesis by blast
qed

lemma fat_collapse: "fat s (collapse_blank s)"
proof (induction "length s" arbitrary: s rule: less_induct)
  case less
  show ?case
  proof (cases "3 \<le> length (lf_run s)")
    case True
    define t where "t = lf_rest s"
    define ct where "ct = collapse_blank t"
    from less.hyps [OF lf_rest_shorter [OF True]]
    have "fat t ct" by (simp add: t_def ct_def)
    then have "fat (LF # t) (LF # ct)"
      by (rule fat.fat_same)
    then have 1: "fat (LF # t) (LF # LF # ct)"
      by (rule fat.fat_ins) simp
    from lf_run_split [OF True] obtain w where w: "list_all is_space w" "s = w @ LF # t"
      by (auto simp: t_def)
    have "fat (w @ LF # t) (LF # LF # ct)"
      using w(1) 1 by (rule fat_del_run) simp
    then have "fat s (LF # LF # ct)" using w(2) by simp
    moreover have "collapse_blank s = LF # LF # ct"
      using True by (simp add: cb_run t_def ct_def)
    ultimately show ?thesis by simp
  next
    case False
    show ?thesis
    proof (cases s)
      case Nil
      then show ?thesis by (simp add: fat.fat_Nil)
    next
      case (Cons c r)
      with False have "collapse_blank s = c # collapse_blank r"
        by (simp add: cb_copy)
      moreover have "fat r (collapse_blank r)"
        using less.hyps [of r] Cons by simp
      ultimately show ?thesis using Cons by (simp add: fat.fat_same)
    qed
  qed
qed

subsection \<open>The option marker\<close>

lemma AD_not_space: "is_AD c \<Longrightarrow> \<not> is_space c"
  by (auto simp: is_AD_def is_space_def)

lemma marker_not_space: "is_marker c \<Longrightarrow> \<not> is_space c"
  by (auto simp: is_marker_def is_space_def)

lemma oml_Some:
  "option_marker_len s = Some n \<longleftrightarrow>
     (\<exists>l m r. s = l # m # r \<and> is_AD l \<and> is_marker m \<and> n = 2 + length (tw r))"
  by (auto simp: option_marker_len_def split: list.splits)

lemma oml_fat:
  assumes "fat s s'" and "option_marker_len s' = Some n'"
  shows "\<exists>n. option_marker_len s = Some n"
proof -
  from assms(2) obtain l m r' where s': "s' = l # m # r'" and l: "is_AD l" and m: "is_marker m"
    by (auto simp: oml_Some)
  from fat_Cons_right [of s l "m # r'"] assms(1) s' AD_not_space [OF l]
  obtain s0 where s0: "s = l # s0" "fat s0 (m # r')" by auto
  from fat_Cons_right [OF s0(2) marker_not_space [OF m]]
  obtain s1 where "s0 = m # s1" by auto
  with s0 l m show ?thesis by (simp add: oml_Some)
qed

text \<open>A body that white space cannot make match stays without a match after the scan.\<close>

lemma none_from_fat:
  assumes bf: "\<And>s s' n'. fat s s' \<Longrightarrow> body s' = Some n' \<Longrightarrow> \<exists>n. body s = Some n"
    and none: "body (dw r) = None"
  shows "body (dw (break_before body r)) = None"
proof (rule ccontr)
  assume "body (dw (break_before body r)) \<noteq> None"
  then obtain n' where "body (dw (break_before body r)) = Some n'" by auto
  moreover have "fat (dw r) (dw (break_before body r))"
    using fat_bb by (rule fat_dw)
  ultimately obtain n where "body (dw r) = Some n"
    using bf by blast
  with none show False by simp
qed

lemma tw_append_nonspace:
  "list_all is_space w \<Longrightarrow> z = [] \<or> \<not> is_space (hd z) \<Longrightarrow> tw (w @ z) = w"
  by (induction w) (auto simp: takeWhile_eq_Nil_iff)

lemma dw_append_nonspace:
  "list_all is_space w \<Longrightarrow> dw (w @ z) = dw z"
  by (induction w) auto

lemma dw_head: "dw r = [] \<or> \<not> is_space (hd (dw r))"
  using hd_dropWhile [of is_space r] by blast

lemma bb_head_nonspace:
  "z = [] \<or> \<not> is_space (hd z) \<Longrightarrow> break_before body z = [] \<or> \<not> is_space (hd (break_before body z))"
  by (cases "z = []") (simp_all add: bb_hd)

lemma oml_ext:
  assumes "option_marker_len s = Some n"
  shows "option_marker_len (take n s @ break_before body (drop n s)) = Some n
     \<and> 0 < n \<and> n \<le> length s \<and> \<not> is_space (hd s)"
proof -
  from assms obtain l m r where s: "s = l # m # r" and l: "is_AD l" and m: "is_marker m"
    and n: "n = 2 + length (tw r)"
    by (auto simp: oml_Some)
  have tk: "take n s = l # m # tw r"
    using s n by (simp add: take_Suc_conv_app_nth takeWhile_eq_take [symmetric])
  have dr: "drop n s = dw r"
    using s n by (simp add: dropWhile_eq_drop [symmetric])
  have "tw (tw r @ break_before body (dw r)) = tw r"
    using tw_all_space bb_head_nonspace [OF dw_head] by (rule tw_append_nonspace)
  then have "option_marker_len (l # m # tw r @ break_before body (dw r)) = Some n"
    using l m n by (simp add: oml_Some)
  moreover have "n \<le> length s"
    using s n length_takeWhile_le [of is_space r] by simp
  ultimately show ?thesis
    using tk dr n s AD_not_space [OF l] by simp
qed

lemma stable_B1: "stable option_marker_len (break_before option_marker_len s)"
proof (rule stable_bb)
  fix r :: jstring
  assume "option_marker_len (dw r) = None"
  with oml_fat show "option_marker_len (dw (break_before option_marker_len r)) = None"
    by (rule none_from_fat)
next
  fix s :: jstring and n
  assume "option_marker_len s = Some n"
  then show "option_marker_len (take n s @ break_before option_marker_len (drop n s)) = Some n
      \<and> 0 < n \<and> n \<le> length s \<and> \<not> is_space (hd s)"
    by (rule oml_ext)
qed

subsection \<open>The inline answer\<close>

lemma starts_ci_Nil [simp]: "starts_ci [] s"
  by (simp add: starts_ci_def)

lemma starts_ci_Cons:
  "starts_ci (x # p) s \<longleftrightarrow> (\<exists>a s0. s = a # s0 \<and> canon a = canon x \<and> starts_ci p s0)"
  by (cases s) (auto simp: starts_ci_def)

definition kw_unit :: "nat \<Rightarrow> bool" where
  "kw_unit x \<longleftrightarrow> x \<in> set (kw_jeongdap @ kw_dap @ kw_answer)"

lemma kw_unit_cases:
  "kw_unit x \<Longrightarrow> x = 51221 \<or> x = 45813 \<or> x = 65 \<or> x = 110 \<or> x = 115 \<or> x = 119 \<or> x = 101 \<or> x = 114"
  by (simp add: kw_unit_def kw_jeongdap_def kw_dap_def kw_answer_def ascii_def)

lemma canon_cases: "canon a = a \<or> (97 \<le> a \<and> a \<le> 122 \<and> canon a = a - 32)"
  by (simp add: canon_def)

lemma kw_unit_range:
  assumes "kw_unit x" and "canon a = canon x"
  shows "a = 51221 \<or> a = 45813 \<or> (65 \<le> a \<and> a \<le> 122)"
proof -
  from kw_unit_cases [OF assms(1)]
  have "canon x = 51221 \<or> canon x = 45813 \<or> (65 \<le> canon x \<and> canon x \<le> 90)"
    by (auto simp: canon_def)
  with assms(2) canon_cases [of a] show ?thesis by auto
qed

lemma kw_unit_not_space: "kw_unit x \<Longrightarrow> canon a = canon x \<Longrightarrow> \<not> is_space a"
  using kw_unit_range [of x a] by (auto simp: is_space_def)

lemma kw_unit_not_marker: "kw_unit x \<Longrightarrow> canon a = canon x \<Longrightarrow> \<not> is_marker a"
  using kw_unit_range [of x a] by (auto simp: is_marker_def)

lemma starts_ci_fat:
  assumes "fat s s'" and "starts_ci p s'" and "\<forall>x\<in>set p. kw_unit x"
  shows "starts_ci p s \<and> fat (drop (length p) s) (drop (length p) s')"
  using assms
proof (induction p arbitrary: s s')
  case Nil
  then show ?case by simp
next
  case (Cons x p)
  from Cons.prems(2) obtain a s0' where s': "s' = a # s0'" and a: "canon a = canon x"
    and p: "starts_ci p s0'"
    by (auto simp: starts_ci_Cons)
  from Cons.prems(3) have "kw_unit x" by simp
  then have "\<not> is_space a" using a by (rule kw_unit_not_space)
  with Cons.prems(1) s' obtain s0 where s: "s = a # s0" and f: "fat s0 s0'"
    using fat_Cons_right by blast
  from Cons.IH [OF f p] Cons.prems(3) have "starts_ci p s0 \<and> fat (drop (length p) s0) (drop (length p) s0')"
    by simp
  with s s' a show ?case by (auto simp: starts_ci_Cons)
qed

lemma kw_units:
  "\<forall>x\<in>set kw_jeongdap. kw_unit x" "\<forall>x\<in>set kw_dap. kw_unit x" "\<forall>x\<in>set kw_answer. kw_unit x"
  by (auto simp: kw_unit_def)

text \<open>The three keywords begin differently, so at most one of them starts a string.\<close>

lemma starts_ci_hd: "starts_ci (x # p) s \<Longrightarrow> canon (hd s) = canon x"
  by (auto simp: starts_ci_Cons)

lemma kw_first:
  "starts_ci kw_jeongdap s \<Longrightarrow> canon (hd s) = 51221"
  "starts_ci kw_dap s \<Longrightarrow> canon (hd s) = 45813"
  "starts_ci kw_answer s \<Longrightarrow> canon (hd s) = 65"
  using starts_ci_hd [of 51221 "[45813]" s] starts_ci_hd [of 45813 "[]" s]
    starts_ci_hd [of 65 "[110, 115, 119, 101, 114]" s]
  by (simp_all add: kw_jeongdap_def kw_dap_def kw_answer_def ascii_def canon_def)

lemma kw_exclusive:
  "starts_ci kw_dap s \<Longrightarrow> \<not> starts_ci kw_jeongdap s"
  "starts_ci kw_answer s \<Longrightarrow> \<not> starts_ci kw_jeongdap s"
  "starts_ci kw_answer s \<Longrightarrow> \<not> starts_ci kw_dap s"
  using kw_first [of s] by auto

lemma kw_lengths [simp]:
  "length kw_jeongdap = 2" "length kw_dap = 1" "length kw_answer = 6"
  by (simp_all add: kw_jeongdap_def kw_dap_def kw_answer_def ascii_def)

lemma match_keyword_Some:
  "match_keyword s = Some r1 \<longleftrightarrow>
     (\<exists>p. (p = kw_jeongdap \<or> p = kw_dap \<or> p = kw_answer) \<and> starts_ci p s \<and> r1 = drop (length p) s)"
proof -
  note ex = kw_exclusive [of s]
  let ?R = "\<exists>p. (p = kw_jeongdap \<or> p = kw_dap \<or> p = kw_answer) \<and> starts_ci p s \<and> r1 = drop (length p) s"
  have R: "?R \<longleftrightarrow> (starts_ci kw_jeongdap s \<and> r1 = drop 2 s) \<or> (starts_ci kw_dap s \<and> r1 = drop 1 s)
      \<or> (starts_ci kw_answer s \<and> r1 = drop 6 s)"
    (is "_ \<longleftrightarrow> ?Q")
  proof
    assume ?R
    then obtain p where p: "p = kw_jeongdap \<or> p = kw_dap \<or> p = kw_answer"
      and st: "starts_ci p s" and r: "r1 = drop (length p) s" by blast
    from p show ?Q
    proof (elim disjE)
      assume "p = kw_jeongdap" with st r show ?Q by simp
    next
      assume "p = kw_dap" with st r show ?Q by simp
    next
      assume "p = kw_answer" with st r show ?Q by simp
    qed
  next
    assume ?Q
    then show ?R
    proof (elim disjE conjE)
      assume "starts_ci kw_jeongdap s" "r1 = drop 2 s"
      then have "starts_ci kw_jeongdap s \<and> r1 = drop (length kw_jeongdap) s" by simp
      then show ?R by blast
    next
      assume "starts_ci kw_dap s" "r1 = drop 1 s"
      then have "starts_ci kw_dap s \<and> r1 = drop (length kw_dap) s" by simp
      then show ?R by blast
    next
      assume "starts_ci kw_answer s" "r1 = drop 6 s"
      then have "starts_ci kw_answer s \<and> r1 = drop (length kw_answer) s" by simp
      then show ?R by blast
    qed
  qed
  show ?thesis
  proof (cases "starts_ci kw_jeongdap s")
    case True
    with ex have n: "\<not> starts_ci kw_dap s" "\<not> starts_ci kw_answer s" by blast+
    from True have "match_keyword s = Some (drop 2 s)" by (simp add: match_keyword_def)
    with True n show ?thesis unfolding R by (simp add: eq_commute)
  next
    case F1: False
    show ?thesis
    proof (cases "starts_ci kw_dap s")
      case True
      with ex have n: "\<not> starts_ci kw_answer s" by blast
      from F1 True have "match_keyword s = Some (drop 1 s)" by (simp add: match_keyword_def)
      with F1 True n show ?thesis unfolding R by (simp add: eq_commute)
    next
      case F2: False
      show ?thesis
      proof (cases "starts_ci kw_answer s")
        case True
        with F1 F2 have "match_keyword s = Some (drop 6 s)" by (simp add: match_keyword_def)
        with F1 F2 True show ?thesis unfolding R by (simp add: eq_commute)
      next
        case False
        with F1 F2 have "match_keyword s = None" by (simp add: match_keyword_def)
        with F1 F2 False show ?thesis unfolding R by simp
      qed
    qed
  qed
qed

lemma match_keyword_fat:
  assumes "fat s s'" and "match_keyword s' = Some r1'"
  shows "\<exists>r1. match_keyword s = Some r1 \<and> fat r1 r1'"
proof -
  from assms(2) obtain p where p: "p = kw_jeongdap \<or> p = kw_dap \<or> p = kw_answer"
    and st: "starts_ci p s'" and r1': "r1' = drop (length p) s'"
    by (auto simp: match_keyword_Some)
  from p have "\<forall>x\<in>set p. kw_unit x" using kw_units by blast
  from starts_ci_fat [OF assms(1) st this] p r1' show ?thesis
    by (auto simp: match_keyword_Some)
qed

lemma answer_letters_Some_head:
  "(\<exists>m rest. answer_letters s = Some (m, rest)) \<longleftrightarrow> (\<exists>l r. s = l # r \<and> is_AD_ci l)"
  by (cases s) (auto simp: answer_letters_def split: prod.splits)

lemma ial_Some:
  "inline_answer_len s = Some n \<longleftrightarrow>
     (\<exists>r1 c r3 m rest. match_keyword s = Some r1 \<and> dw r1 = c # r3 \<and> is_colon c
        \<and> answer_letters (dw r3) = Some (m, rest) \<and> n = length s - length rest)"
proof (cases "match_keyword s")
  case None
  then show ?thesis by (simp add: inline_answer_len_def)
next
  case (Some r1)
  define d1 where "d1 = dw r1"
  have e: "inline_answer_len s =
      (case d1 of [] \<Rightarrow> None
       | c # r3 \<Rightarrow>
           if is_colon c
           then case answer_letters (dw r3) of None \<Rightarrow> None
                | Some (m, rest) \<Rightarrow> Some (length s - length rest)
           else None)"
    unfolding d1_def inline_answer_len_def Some by simp
  have r: "(\<exists>r1 c r3 m rest. match_keyword s = Some r1 \<and> dw r1 = c # r3 \<and> is_colon c
        \<and> answer_letters (dw r3) = Some (m, rest) \<and> n = length s - length rest)
      \<longleftrightarrow> (\<exists>c r3 m rest. d1 = c # r3 \<and> is_colon c
        \<and> answer_letters (dw r3) = Some (m, rest) \<and> n = length s - length rest)"
    unfolding d1_def Some by simp
  show ?thesis
    unfolding e r
  proof (cases d1)
    case Nil
    then show "((case d1 of [] \<Rightarrow> None
       | c # r3 \<Rightarrow>
           if is_colon c
           then case answer_letters (dw r3) of None \<Rightarrow> None
                | Some (m, rest) \<Rightarrow> Some (length s - length rest)
           else None) = Some n)
      \<longleftrightarrow> (\<exists>c r3 m rest. d1 = c # r3 \<and> is_colon c
        \<and> answer_letters (dw r3) = Some (m, rest) \<and> n = length s - length rest)"
      by simp
  next
    case (Cons c r3)
    then show "((case d1 of [] \<Rightarrow> None
       | c # r3 \<Rightarrow>
           if is_colon c
           then case answer_letters (dw r3) of None \<Rightarrow> None
                | Some (m, rest) \<Rightarrow> Some (length s - length rest)
           else None) = Some n)
      \<longleftrightarrow> (\<exists>c r3 m rest. d1 = c # r3 \<and> is_colon c
        \<and> answer_letters (dw r3) = Some (m, rest) \<and> n = length s - length rest)"
      by (cases "answer_letters (dw r3)") auto
  qed
qed

lemma ial_fat:
  assumes "fat s s'" and "inline_answer_len s' = Some n'"
  shows "\<exists>n. inline_answer_len s = Some n"
proof -
  from assms(2) obtain r1' c r3' m' rest' where
    k: "match_keyword s' = Some r1'" and d: "dw r1' = c # r3'" and c: "is_colon c"
    and a: "answer_letters (dw r3') = Some (m', rest')"
    unfolding ial_Some by blast
  from match_keyword_fat [OF assms(1) k] obtain r1 where
    k0: "match_keyword s = Some r1" and f1: "fat r1 r1'" by blast
  from fat_dw_Cons [OF f1 d] obtain r3 where d0: "dw r1 = c # r3" and f3: "fat r3 r3'" by blast
  from a obtain l r' where l: "dw r3' = l # r'" "is_AD_ci l"
    using answer_letters_Some_head [of "dw r3'"] by blast
  from fat_dw_Cons [OF f3 l(1)] obtain r0 where "dw r3 = l # r0" by blast
  with l(2) obtain m rest where "answer_letters (dw r3) = Some (m, rest)"
    using answer_letters_Some_head [of "dw r3"] by blast
  with k0 d0 c show ?thesis
    unfolding ial_Some by blast
qed

lemma ial_none:
  "inline_answer_len (dw r) = None \<Longrightarrow> inline_answer_len (dw (break_before inline_answer_len r)) = None"
  using ial_fat by (rule none_from_fat)

declare letters_tail.simps [simp del]

text \<open>One more \<open>separator, letter\<close> can be read from the string.\<close>

definition lt_more :: "jstring \<Rightarrow> bool" where
  "lt_more s \<longleftrightarrow> (\<exists>c r l r'. dw s = c # r \<and> is_sep c \<and> dw r = l # r' \<and> is_AD_ci l)"

lemma lt_none: "\<not> lt_more s \<Longrightarrow> letters_tail s = ([], s)"
  by (auto simp: lt_more_def letters_tail.simps [of s] split: list.splits)

lemma lt_step:
  assumes "dw s = c # r" and "is_sep c" and "dw r = l # r'" and "is_AD_ci l"
  shows "letters_tail s = (tw s @ [c] @ tw r @ [l] @ fst (letters_tail r'), snd (letters_tail r'))"
  using assms by (simp add: letters_tail.simps [of s] split: prod.splits)

lemma sep_not_space: "is_sep c \<Longrightarrow> \<not> is_space c"
  by (auto simp: is_sep_def is_space_def)

lemma AD_ci_not_space: "is_AD_ci c \<Longrightarrow> \<not> is_space c"
  using canon_cases [of c] by (auto simp: is_AD_ci_def is_AD_def is_space_def)

lemma lt_split: "letters_tail s = (x, rest) \<Longrightarrow> s = x @ rest"
proof (induction "length s" arbitrary: s x rest rule: less_induct)
  case less
  show ?case
  proof (cases "lt_more s")
    case False
    with less.prems show ?thesis by (simp add: lt_none)
  next
    case True
    then obtain c r l r' where d: "dw s = c # r" "is_sep c" "dw r = l # r'" "is_AD_ci l"
      by (auto simp: lt_more_def)
    have s: "s = tw s @ c # r" using d(1) takeWhile_dropWhile_id [of is_space s] by simp
    have r: "r = tw r @ l # r'" using d(3) takeWhile_dropWhile_id [of is_space r] by simp
    have "length r' < length s"
      using arg_cong [OF s, of length] arg_cong [OF r, of length] by simp
    from less.hyps [OF this, of "fst (letters_tail r')" "snd (letters_tail r')"]
    have r': "r' = fst (letters_tail r') @ snd (letters_tail r')" by simp
    from less.prems lt_step [OF d] have x: "x = tw s @ [c] @ tw r @ [l] @ fst (letters_tail r')"
      and rest: "rest = snd (letters_tail r')" by simp_all
    have "s = tw s @ c # tw r @ l # r'" using s r by simp
    with r' x rest show ?thesis by simp
  qed
qed

lemma lt_more_fat:
  assumes "fat s s'" and "lt_more s'"
  shows "lt_more s"
proof -
  from assms(2) obtain c r' l r2' where d: "dw s' = c # r'" "is_sep c" "dw r' = l # r2'" "is_AD_ci l"
    by (auto simp: lt_more_def)
  from fat_dw_Cons [OF assms(1) d(1)] obtain r where r: "dw s = c # r" "fat r r'" by blast
  from fat_dw_Cons [OF r(2) d(3)] obtain r2 where "dw r = l # r2" by blast
  with r(1) d(2,4) show ?thesis by (auto simp: lt_more_def)
qed

text \<open>
  The letter list read from \<open>a @ u\<close> is again \<open>a\<close> when \<open>u\<close> is replaced by a text
  that does not continue it.
\<close>

lemma lt_append:
  "letters_tail (a @ u) = (a, u) \<Longrightarrow> \<not> lt_more u' \<Longrightarrow> letters_tail (a @ u') = (a, u')"
proof (induction "length a" arbitrary: a rule: less_induct)
  case less
  show ?case
  proof (cases "a = []")
    case True
    with less.prems show ?thesis by (simp add: lt_none)
  next
    case False
    have more: "lt_more (a @ u)"
    proof (rule ccontr)
      assume "\<not> lt_more (a @ u)"
      then have "letters_tail (a @ u) = ([], a @ u)" by (rule lt_none)
      with less.prems(1) False show False by simp
    qed
    then obtain c r l r' where d: "dw (a @ u) = c # r" "is_sep c" "dw r = l # r'" "is_AD_ci l"
      by (auto simp: lt_more_def)
    define m where "m = fst (letters_tail r')"
    from less.prems(1) lt_step [OF d] have a: "a = tw (a @ u) @ [c] @ tw r @ [l] @ m"
      and u: "snd (letters_tail r') = u" by (simp_all add: m_def)
    have lr': "letters_tail r' = (m, u)" using u by (simp add: m_def prod_eq_iff)
    from lt_split [OF lr'] have r': "r' = m @ u" .
    define w1 where "w1 = tw (a @ u)"
    define w2 where "w2 = tw r"
    have w: "list_all is_space w1" "list_all is_space w2"
      by (simp_all add: w1_def w2_def tw_all_space)
    have a': "a = w1 @ c # w2 @ l # m" using a by (simp add: w1_def w2_def)
    have c: "\<not> is_space c" using d(2) by (rule sep_not_space)
    have l: "\<not> is_space l" using d(4) by (rule AD_ci_not_space)
    have "length m < length a" using a' by simp
    from less.hyps [OF this] lr' r' less.prems(2) have ih: "letters_tail (m @ u') = (m, u')"
      by simp
    have d1: "dw (a @ u') = c # w2 @ l # m @ u'"
      using w(1) c by (simp add: a' dw_append_nonspace)
    have t1: "tw (a @ u') = w1"
      using tw_append_nonspace [OF w(1), of "c # w2 @ l # m @ u'"] c by (simp add: a')
    have d2: "dw (w2 @ l # m @ u') = l # m @ u'"
      using w(2) l by (simp add: dw_append_nonspace)
    have t2: "tw (w2 @ l # m @ u') = w2"
      using tw_append_nonspace [OF w(2), of "l # m @ u'"] l by simp
    from lt_step [OF d1 d(2) d2 d(4)] ih t1 t2 a' show ?thesis by simp
  qed
qed

lemma lt_rest: "\<not> lt_more (snd (letters_tail s))"
proof (induction "length s" arbitrary: s rule: less_induct)
  case less
  show ?case
  proof (cases "lt_more s")
    case False
    then show ?thesis by (simp add: lt_none)
  next
    case True
    then obtain c r l r' where d: "dw s = c # r" "is_sep c" "dw r = l # r'" "is_AD_ci l"
      by (auto simp: lt_more_def)
    have s: "s = tw s @ c # r" using d(1) takeWhile_dropWhile_id [of is_space s] by simp
    have r: "r = tw r @ l # r'" using d(3) takeWhile_dropWhile_id [of is_space r] by simp
    have "length r' < length s"
      using arg_cong [OF s, of length] arg_cong [OF r, of length] by simp
    from less.hyps [OF this] lt_step [OF d] show ?thesis by simp
  qed
qed

lemma answer_letters_Cons:
  "answer_letters (l # r) = Some (m, rest) \<longleftrightarrow>
     is_AD_ci l \<and> m = l # fst (letters_tail r) \<and> rest = snd (letters_tail r)"
  by (auto simp: answer_letters_def split: prod.splits)

lemma answer_letters_Nil [simp]: "answer_letters [] = None"
  by (simp add: answer_letters_def)

lemma answer_letters_split: "answer_letters s = Some (m, rest) \<Longrightarrow> s = m @ rest"
proof (cases s)
  case Nil
  assume "answer_letters s = Some (m, rest)"
  with Nil show ?thesis by simp
next
  case (Cons l r)
  assume "answer_letters s = Some (m, rest)"
  with Cons have "m = l # fst (letters_tail r)" "rest = snd (letters_tail r)"
    by (simp_all add: answer_letters_Cons)
  moreover have "r = fst (letters_tail r) @ snd (letters_tail r)"
    by (rule lt_split) simp
  ultimately show ?thesis using Cons by simp
qed

lemma answer_letters_rest: "answer_letters s = Some (m, rest) \<Longrightarrow> \<not> lt_more rest"
proof (cases s)
  case Nil
  assume "answer_letters s = Some (m, rest)"
  with Nil show ?thesis by simp
next
  case (Cons l r)
  assume "answer_letters s = Some (m, rest)"
  with Cons have "rest = snd (letters_tail r)"
    by (simp add: answer_letters_Cons)
  then show ?thesis by (simp add: lt_rest)
qed

lemma answer_letters_append:
  assumes "answer_letters (m @ u) = Some (m, u)" and "\<not> lt_more u'"
  shows "answer_letters (m @ u') = Some (m, u')"
proof (cases m)
  case Nil
  with assms(1) have "answer_letters u = Some ([], u)" by simp
  then have False by (cases u) (simp_all add: answer_letters_Cons)
  then show ?thesis ..
next
  case (Cons l x)
  with assms(1) have l: "is_AD_ci l" and x: "x = fst (letters_tail (x @ u))"
    and u: "u = snd (letters_tail (x @ u))"
    by (simp_all add: answer_letters_Cons)
  have "letters_tail (x @ u) = (x, u)" using x u by (simp add: prod_eq_iff)
  from lt_append [OF this assms(2)] have "letters_tail (x @ u') = (x, u')" .
  with l Cons show ?thesis by (simp add: answer_letters_Cons)
qed

lemma colon_not_space: "is_colon c \<Longrightarrow> \<not> is_space c"
  by (auto simp: is_colon_def is_space_def)

lemma starts_ci_take: "starts_ci p s \<Longrightarrow> starts_ci p (take (length p) s @ z)"
  by (simp add: starts_ci_def)

text \<open>The text of a match: keyword, white space, colon, white space, letter list.\<close>

lemma ial_decomp:
  assumes "inline_answer_len s = Some n"
  shows "\<exists>p w1 c w2 m rest.
      (p = kw_jeongdap \<or> p = kw_dap \<or> p = kw_answer) \<and> starts_ci p s
      \<and> s = take (length p) s @ w1 @ c # w2 @ m @ rest
      \<and> list_all is_space w1 \<and> is_colon c \<and> list_all is_space w2
      \<and> answer_letters (m @ rest) = Some (m, rest)
      \<and> n = length (take (length p) s @ w1 @ c # w2 @ m)"
proof -
  from assms obtain r1 c r3 m rest where
    k: "match_keyword s = Some r1" and d: "dw r1 = c # r3" and c: "is_colon c"
    and a: "answer_letters (dw r3) = Some (m, rest)" and n: "n = length s - length rest"
    unfolding ial_Some by blast
  from k obtain p where p: "p = kw_jeongdap \<or> p = kw_dap \<or> p = kw_answer"
    and st: "starts_ci p s" and r1: "r1 = drop (length p) s"
    unfolding match_keyword_Some by blast
  define k where "k = take (length p) s"
  define w1 where "w1 = tw r1"
  define w2 where "w2 = tw r3"
  define d3 where "d3 = dw r3"
  have w: "list_all is_space w1" "list_all is_space w2"
    by (simp_all add: w1_def w2_def tw_all_space)
  have s1: "s = k @ r1" by (simp add: r1 k_def)
  have "r1 = tw r1 @ dw r1" by simp
  then have s2: "r1 = w1 @ c # r3" unfolding d w1_def .
  have s3: "r3 = w2 @ d3" by (simp add: w2_def d3_def)
  have s4: "d3 = m @ rest" using a unfolding d3_def by (rule answer_letters_split)
  have s: "s = k @ w1 @ c # w2 @ m @ rest"
    by (subst s1, subst s2, subst s3, subst s4) (rule refl)
  have "length s = length (k @ w1 @ c # w2 @ m) + length rest"
    by (subst s) simp
  with n have n': "n = length (k @ w1 @ c # w2 @ m)" by simp
  from a have a': "answer_letters (m @ rest) = Some (m, rest)"
    unfolding d3_def [symmetric] s4 .
  from p st s w c a' n' show ?thesis
    unfolding k_def by blast
qed

lemma ial_build:
  assumes p: "p = kw_jeongdap \<or> p = kw_dap \<or> p = kw_answer" and st: "starts_ci p k"
    and len: "length k = length p"
    and w1: "list_all is_space w1" and c: "is_colon c" and w2: "list_all is_space w2"
    and a: "answer_letters (m @ z) = Some (m, z)"
  shows "inline_answer_len (k @ w1 @ c # w2 @ m @ z) = Some (length (k @ w1 @ c # w2 @ m))"
proof -
  define s where "s = k @ w1 @ c # w2 @ m @ z"
  have "starts_ci p s"
    using starts_ci_take [OF st, of "w1 @ c # w2 @ m @ z"] len by (simp add: s_def)
  with p have k: "match_keyword s = Some (w1 @ c # w2 @ m @ z)"
    using len by (auto simp: match_keyword_Some s_def)
  have d1: "dw (w1 @ c # w2 @ m @ z) = c # w2 @ m @ z"
    using w1 colon_not_space [OF c] by (simp add: dw_append_nonspace)
  from a obtain l x where m: "m = l # x" and l: "is_AD_ci l"
    by (cases "m @ z") (simp_all add: answer_letters_Cons)
  have d2: "dw (w2 @ m @ z) = m @ z"
    using w2 AD_ci_not_space [OF l] by (simp add: dw_append_nonspace m)
  have "length s - length z = length (k @ w1 @ c # w2 @ m)"
    by (simp add: s_def)
  with k d1 d2 c a show ?thesis
    unfolding s_def [symmetric] by (simp add: inline_answer_len_def)
qed

lemma starts_ci_nonempty:
  assumes "p = kw_jeongdap \<or> p = kw_dap \<or> p = kw_answer" and "starts_ci p s"
  shows "length p \<le> length s \<and> s \<noteq> [] \<and> \<not> is_space (hd s) \<and> \<not> is_marker (hd s)
     \<and> \<not> (is_AD (hd s) \<and> is_marker (hd (tl s)))"
proof -
  from assms obtain x q where p: "p = x # q" and x: "kw_unit x"
    by (auto simp: kw_jeongdap_def kw_dap_def kw_answer_def ascii_def kw_unit_def)
  from assms(2) p obtain a s0 where s: "s = a # s0" and a: "canon a = canon x" and q: "starts_ci q s0"
    by (auto simp: starts_ci_Cons)
  have l: "length p \<le> length s" using assms(2) by (simp add: starts_ci_def)
  have "\<not> (is_AD a \<and> is_marker (hd s0))"
  proof
    assume ad: "is_AD a \<and> is_marker (hd s0)"
    with a kw_unit_cases [OF x] have "x = 65"
      by (auto simp: is_AD_def canon_def split: if_splits)
    with assms(1) p have "q = [110, 115, 119, 101, 114]"
      by (auto simp: kw_jeongdap_def kw_dap_def kw_answer_def ascii_def)
    with q have "canon (hd s0) = 78"
      using starts_ci_hd [of 110 "[115, 119, 101, 114]" s0] by (simp add: canon_def)
    with ad show False
      using canon_cases [of "hd s0"] by (auto simp: is_marker_def)
  qed
  with s l kw_unit_not_space [OF x a] kw_unit_not_marker [OF x a] show ?thesis by simp
qed

lemma ial_ext:
  assumes "inline_answer_len s = Some n"
  shows "inline_answer_len (take n s @ break_before inline_answer_len (drop n s)) = Some n
     \<and> 0 < n \<and> n \<le> length s \<and> \<not> is_space (hd s)"
proof -
  from ial_decomp [OF assms] obtain p w1 c w2 m rest where
    p: "p = kw_jeongdap \<or> p = kw_dap \<or> p = kw_answer" and st: "starts_ci p s"
    and s: "s = take (length p) s @ w1 @ c # w2 @ m @ rest"
    and w1: "list_all is_space w1" and c: "is_colon c" and w2: "list_all is_space w2"
    and a: "answer_letters (m @ rest) = Some (m, rest)"
    and n: "n = length (take (length p) s @ w1 @ c # w2 @ m)"
    by blast
  define k where "k = take (length p) s"
  define K where "K = k @ w1 @ c # w2 @ m"
  define z where "z = break_before inline_answer_len rest"
  have sK: "s = K @ rest" using s by (simp add: K_def k_def)
  have nK: "n = length K" using n by (simp add: K_def k_def)
  from sK nK have tk: "take n s = K" and dr: "drop n s = rest" by simp_all
  from starts_ci_nonempty [OF p st] have pl: "length p \<le> length s" and h: "\<not> is_space (hd s)"
    by simp_all
  then have lk: "length k = length p" by (simp add: k_def)
  have stk: "starts_ci p k"
    using starts_ci_take [OF st, of "[]"] by (simp add: k_def)
  have "\<not> lt_more rest" using a by (rule answer_letters_rest)
  then have nz: "\<not> lt_more z"
    using lt_more_fat [OF fat_bb, of inline_answer_len rest] by (auto simp: z_def)
  from answer_letters_append [OF a nz] have az: "answer_letters (m @ z) = Some (m, z)" .
  from ial_build [OF p stk lk w1 c w2 az] have "inline_answer_len (K @ z) = Some (length K)"
    by (simp add: K_def)
  moreover have "0 < n" using nK by (simp add: K_def)
  moreover have "n \<le> length s" using sK nK by simp
  ultimately show ?thesis using tk dr nK h by (simp add: z_def)
qed

lemma stable_B3: "stable inline_answer_len (break_before inline_answer_len s)"
proof (rule stable_bb)
  fix r :: jstring
  assume "inline_answer_len (dw r) = None"
  then show "inline_answer_len (dw (break_before inline_answer_len r)) = None"
    by (rule ial_none)
next
  fix s :: jstring and n
  assume "inline_answer_len s = Some n"
  then show "inline_answer_len (take n s @ break_before inline_answer_len (drop n s)) = Some n
      \<and> 0 < n \<and> n \<le> length s \<and> \<not> is_space (hd s)"
    by (rule ial_ext)
qed

subsection \<open>Runs of line feeds\<close>

text \<open>Somewhere in the string three line feeds follow each other.\<close>

fun lf3 :: "jstring \<Rightarrow> bool" where
  "lf3 [] = False"
| "lf3 (c # r) = (3 \<le> length (lf_run (c # r)) \<or> lf3 r)"

lemma lf_run_not_LF: "s = [] \<or> hd s \<noteq> LF \<Longrightarrow> lf_run s = []"
  by (cases s) auto

lemma lf_run_append: "z = [] \<or> hd z \<noteq> LF \<Longrightarrow> lf_run (lf_run s @ z) = lf_run s"
  by (induction s) (auto simp: lf_run_not_LF)

lemma lf_rest_head: "lf_rest s = [] \<or> hd (lf_rest s) \<noteq> LF"
  using hd_dropWhile [of "\<lambda>x. x = LF" s] by blast

lemma cb_head: "s = [] \<or> hd s \<noteq> LF \<Longrightarrow> collapse_blank s = [] \<or> hd (collapse_blank s) \<noteq> LF"
  by (cases s) (auto simp: cb_not_LF)

lemma cb_run_len:
  "length (lf_run (collapse_blank s)) = (if 3 \<le> length (lf_run s) then 2 else length (lf_run s))"
proof (induction s)
  case Nil
  then show ?case by simp
next
  case (Cons c r)
  show ?case
  proof (cases "3 \<le> length (lf_run (c # r))")
    case True
    have "lf_run (collapse_blank (lf_rest (c # r))) = []"
      using cb_head [OF lf_rest_head] by (rule lf_run_not_LF)
    with True show ?thesis by (simp add: cb_run)
  next
    case False
    then have e: "collapse_blank (c # r) = c # collapse_blank r" by (rule cb_copy)
    show ?thesis
    proof (cases "c = LF")
      case True
      with False have "\<not> 3 \<le> length (lf_run r)" by simp
      with Cons have "length (lf_run (collapse_blank r)) = length (lf_run r)" by simp
      moreover have "collapse_blank (LF # r) = LF # collapse_blank r"
        using e True by simp
      ultimately show ?thesis using True False by simp
    next
      case False
      then show ?thesis by (simp add: e)
    qed
  qed
qed

lemma cb_no_lf3: "\<not> lf3 (collapse_blank s)"
proof (induction "length s" arbitrary: s rule: less_induct)
  case less
  show ?case
  proof (cases "3 \<le> length (lf_run s)")
    case True
    define ct where "ct = collapse_blank (lf_rest s)"
    have ih: "\<not> lf3 ct"
      using less.hyps [OF lf_rest_shorter [OF True]] by (simp add: ct_def)
    have r0: "lf_run ct = []"
      unfolding ct_def using cb_head [OF lf_rest_head] by (rule lf_run_not_LF)
    have "collapse_blank s = LF # LF # ct"
      using True by (simp add: cb_run ct_def)
    with ih r0 show ?thesis by simp
  next
    case False
    show ?thesis
    proof (cases s)
      case Nil
      then show ?thesis by simp
    next
      case (Cons c r)
      with False have e: "collapse_blank s = c # collapse_blank r" by (simp add: cb_copy)
      have ih: "\<not> lf3 (collapse_blank r)" using less.hyps [of r] Cons by simp
      have "length (lf_run (c # collapse_blank r)) = length (lf_run (c # r))"
        using cb_run_len [of r] False Cons by (cases "c = LF") (auto split: if_splits)
      with False Cons ih e show ?thesis by simp
    qed
  qed
qed

lemma no_lf3_fixed: "\<not> lf3 s \<Longrightarrow> collapse_blank s = s"
proof (induction s)
  case Nil
  then show ?case by simp
next
  case (Cons c r)
  then have "\<not> 3 \<le> length (lf_run (c # r))" and "\<not> lf3 r" by simp_all
  with Cons.IH show ?case by (simp add: cb_copy)
qed

lemma bb_lf_run: "lf_run (break_before body s) = lf_run s"
proof (induction s)
  case Nil
  then show ?case by simp
next
  case (Cons c r)
  show ?case
  proof (cases "c = LF")
    case True
    with Cons show ?thesis by simp
  next
    case False
    obtain x where "break_before body (c # r) = c # x"
      using bb_Cons by blast
    with False show ?thesis by simp
  qed
qed

lemma lf3_append_right: "lf3 z \<Longrightarrow> lf3 (p @ z)"
  by (induction p) auto

lemma lf_run_append_left: "p \<noteq> [] \<Longrightarrow> last p \<noteq> LF \<Longrightarrow> lf_run (p @ z) = lf_run p"
proof (induction p)
  case Nil
  then show ?case by simp
next
  case (Cons k p)
  show ?case
  proof (cases "p = []")
    case True
    with Cons.prems show ?thesis by simp
  next
    case False
    with Cons show ?thesis by simp
  qed
qed

text \<open>What follows a text that does not end in a line feed can be exchanged.\<close>

lemma lf3_exchange:
  "\<not> lf3 (p @ u) \<Longrightarrow> \<not> lf3 u' \<Longrightarrow> p \<noteq> [] \<Longrightarrow> last p \<noteq> LF \<Longrightarrow> \<not> lf3 (p @ u')"
proof (induction p)
  case Nil
  then show ?case by simp
next
  case (Cons k p)
  show ?case
  proof (cases "p = []")
    case True
    with Cons.prems show ?thesis by simp
  next
    case False
    with Cons.prems have l: "last p \<noteq> LF" by simp
    from Cons.prems(1) have 1: "\<not> 3 \<le> length (lf_run (k # p @ u))" and 2: "\<not> lf3 (p @ u)"
      by simp_all
    from Cons.IH [OF 2 Cons.prems(2) False l] have ih: "\<not> lf3 (p @ u')" .
    have "lf_run (p @ u') = lf_run (p @ u)"
      using lf_run_append_left [OF False l] by simp
    then have "lf_run (k # p @ u') = lf_run (k # p @ u)" by simp
    with 1 ih show ?thesis by simp
  qed
qed

subsection \<open>Moving a text to a line of its own\<close>

text \<open>
  \<open>sq s s'\<close>: \<open>s'\<close> is \<open>s\<close> where, behind some units other than a line feed, the white
  space in front of a text has become one line feed, the text beginning with neither
  white space nor an option marker, and not being an option itself.
\<close>

inductive sq :: "jstring \<Rightarrow> jstring \<Rightarrow> bool" where
  sq_Nil: "sq [] []"
| sq_copy: "sq s s' \<Longrightarrow> sq (c # s) (c # s')"
| sq_break: "sq s s' \<Longrightarrow> c \<noteq> LF \<Longrightarrow> list_all is_space w \<Longrightarrow> s \<noteq> [] \<Longrightarrow> \<not> is_space (hd s)
     \<Longrightarrow> \<not> is_marker (hd s) \<Longrightarrow> option_marker_len s = None \<Longrightarrow> sq (c # w @ s) (c # LF # s')"

lemma sq_Cons_cases:
  assumes "sq (c # r) x"
  obtains (copy) r' where "x = c # r'" and "sq r r'"
  | (break) w s s' where "r = w @ s" and "x = c # LF # s'" and "sq s s'" and "c \<noteq> LF"
      and "list_all is_space w" and "s \<noteq> []" and "\<not> is_space (hd s)"
      and "\<not> is_marker (hd s)" and "option_marker_len s = None"
  using assms by (cases rule: sq.cases) auto

lemma sq_refl: "sq s s"
  by (induction s) (auto intro: sq.intros)

lemma sq_append_same: "sq a b \<Longrightarrow> sq (p @ a) (p @ b)"
  by (induction p) (auto intro: sq.intros)

lemma sq_hd: "sq s s' \<Longrightarrow> (s' = [] \<longleftrightarrow> s = []) \<and> hd s' = hd s"
  by (induction rule: sq.induct) auto

lemma sq_fat: "sq s s' \<Longrightarrow> fat s s'"
proof (induction rule: sq.induct)
  case sq_Nil
  show ?case by (rule fat_Nil)
next
  case (sq_copy s s' c)
  then show ?case by (simp add: fat_same)
next
  case (sq_break s s' c w)
  have "fat s (LF # s')" using sq_break.IH by (simp add: fat_ins)
  then have "fat (w @ s) (LF # s')"
    using sq_break.hyps(3) by (simp add: fat_del_run)
  then show ?case by (rule fat_same)
qed

lemma dw_id: "s = [] \<or> \<not> is_space (hd s) \<Longrightarrow> dw s = s"
  by (cases s) auto

lemma sq_dw: "sq s s' \<Longrightarrow> sq (dw s) (dw s')"
proof (induction rule: sq.induct)
  case sq_Nil
  show ?case by (simp add: sq.sq_Nil)
next
  case (sq_copy s s' c)
  then show ?case by (cases "is_space c") (simp_all add: sq.sq_copy)
next
  case (sq_break s s' c w)
  show ?case
  proof (cases "is_space c")
    case True
    from sq_hd [OF sq_break.hyps(1)] sq_break.hyps have h: "s' \<noteq> []" "\<not> is_space (hd s')"
      by simp_all
    have "dw (c # w @ s) = s"
      using True sq_break.hyps by (simp add: dw_append_nonspace dw_id)
    moreover have "dw (c # LF # s') = s'"
      using True h by (simp add: dw_id)
    ultimately show ?thesis using sq_break.hyps(1) by simp
  next
    case False
    then show ?thesis using sq_break.hyps by (simp add: sq.sq_break)
  qed
qed

lemma sq_lf_run: "sq s s' \<Longrightarrow> lf_run s' = lf_run s"
  by (induction rule: sq.induct) auto

lemma sq_lf3: "sq s s' \<Longrightarrow> \<not> lf3 s \<Longrightarrow> \<not> lf3 s'"
proof (induction rule: sq.induct)
  case sq_Nil
  then show ?case by simp
next
  case (sq_copy s s' c)
  from sq_copy.prems have 1: "\<not> 3 \<le> length (lf_run (c # s))" and 2: "\<not> lf3 s" by simp_all
  have "lf_run (c # s') = lf_run (c # s)"
    using sq_lf_run [OF sq_copy.hyps] by simp
  with 1 sq_copy.IH [OF 2] show ?case by simp
next
  case (sq_break s s' c w)
  have "\<not> lf3 (w @ s)" using sq_break.prems by simp
  then have "\<not> lf3 s" using lf3_append_right by blast
  then have ih: "\<not> lf3 s'" by (rule sq_break.IH)
  from sq_hd [OF sq_break.hyps(1)] sq_break.hyps have h: "s' \<noteq> []" "\<not> is_space (hd s')"
    by simp_all
  then have "hd s' \<noteq> LF" by auto
  with h have "lf_run s' = []" by (simp add: lf_run_not_LF)
  with ih sq_break.hyps(2) show ?case by simp
qed

lemma sq_oml_none:
  assumes "sq s s'" and "option_marker_len (dw s) = None"
  shows "option_marker_len (dw s') = None"
proof (rule ccontr)
  assume "option_marker_len (dw s') \<noteq> None"
  then obtain n' where "option_marker_len (dw s') = Some n'" by blast
  from oml_fat [OF fat_dw [OF sq_fat [OF assms(1)]] this] assms(2) show False by simp
qed

text \<open>Behind an option marker, the texts that follow the white space correspond.\<close>

lemma sq_marker_tail:
  assumes "sq (m # rest) t"
  shows "\<exists>rest'. t = m # rest' \<and> sq (dw rest) (dw rest')"
  using assms
proof (cases rule: sq_Cons_cases)
  case (copy s')
  then show ?thesis using sq_dw by blast
next
  case (break w s s')
  from sq_hd [OF break(3)] break have h: "s' \<noteq> []" "\<not> is_space (hd s')" by simp_all
  have "dw rest = s" using break by (simp add: dw_append_nonspace dw_id)
  moreover have "dw (LF # s') = s'" using h by (simp add: dw_id)
  ultimately show ?thesis using break(2,3) by auto
qed

lemma drop_tw: "drop (length (tw r)) r = dw r"
  by (induction r) auto

lemma sq_stable:
  "stable option_marker_len s \<Longrightarrow> sq s s' \<Longrightarrow> stable option_marker_len s'"
proof (induction "length s" arbitrary: s s' rule: less_induct)
  case less
  show ?case
  proof (cases s)
    case Nil
    with less.prems(2) sq_hd [of s s'] show ?thesis by simp
  next
    case (Cons c r)
    from less.prems(2) have q: "sq (c # r) s'" unfolding Cons .
    from q show ?thesis
    proof (cases rule: sq_Cons_cases)
      case (copy r')
      note s' = copy(1) and rr = copy(2)
      show ?thesis
      proof (cases "c = LF")
        case True
        with less.prems(1) Cons have "stable option_marker_len r" by simp
        from less.hyps [OF _ this rr] Cons have "stable option_marker_len r'" by simp
        with True s' show ?thesis by simp
      next
        case False
        show ?thesis
        proof (cases "option_marker_len (dw r)")
          case None
          with False less.prems(1) Cons have "stable option_marker_len r" by (simp add: st_none)
          from less.hyps [OF _ this rr] Cons have "stable option_marker_len r'" by simp
          with False sq_oml_none [OF rr None] s' show ?thesis by (simp add: st_none)
        next
          case (Some n)
          with False less.prems(1) Cons have t: "tw r = [LF]"
            and st: "stable option_marker_len (drop n (dw r))"
            by (simp_all add: st_some)
          from Some obtain l m rest where d: "dw r = l # m # rest" and l: "is_AD l"
            and m: "is_marker m" and n: "n = 2 + length (tw rest)"
            unfolding oml_Some by blast
          have r: "r = LF # l # m # rest" using tw_dw_split [OF t] d by simp
          from st have st': "stable option_marker_len (dw rest)"
            unfolding d n by (simp add: drop_tw)
          from rr obtain t2 where r': "r' = LF # t2" and q2: "sq (l # m # rest) t2"
            unfolding r by (auto elim: sq_Cons_cases)
          from q2 obtain t3 where t2: "t2 = l # t3" and q3: "sq (m # rest) t3"
          proof (cases rule: sq_Cons_cases)
            case (copy x)
            then show ?thesis using that by blast
          next
            case (break w s0 s0')
            from break(1,5,6,7,8) m marker_not_space [OF m] have False
              by (cases w) auto
            then show ?thesis ..
          qed
          from sq_marker_tail [OF q3] obtain rest' where t3: "t3 = m # rest'"
            and qd: "sq (dw rest) (dw rest')" by blast
          have "length (dw rest) < length s"
            using length_dropWhile_le [of is_space rest] Cons r by simp
          from less.hyps [OF this st' qd] have f: "stable option_marker_len (dw rest')" .
          have s'': "s' = c # LF # l # m # rest'" using s' r' t2 t3 by simp
          have dl: "dw (LF # l # m # rest') = l # m # rest'"
            using AD_not_space [OF l] by simp
          have o: "option_marker_len (dw (LF # l # m # rest')) = Some (2 + length (tw rest'))"
            unfolding dl using l m unfolding oml_Some by blast
          have tl: "tw (LF # l # m # rest') = [LF]"
            using AD_not_space [OF l] by simp
          have "stable option_marker_len (c # LF # l # m # rest')
              = (tw (LF # l # m # rest') = [LF]
                 \<and> stable option_marker_len (drop (2 + length (tw rest')) (dw (LF # l # m # rest'))))"
            using False o by (rule st_some)
          also have "\<dots> = stable option_marker_len (dw rest')"
            unfolding tl dl by (simp add: drop_tw)
          finally show ?thesis unfolding s'' using f by simp
        qed
      qed
    next
      case (break w s0 s0')
      have d: "dw (w @ s0) = s0" using break by (simp add: dw_append_nonspace dw_id)
      have n0: "option_marker_len (dw s0) = None" using break by (simp add: dw_id)
      have "stable option_marker_len (w @ s0)"
        using less.prems(1) Cons break(1,4,9) d by (simp add: st_none)
      then have "stable option_marker_len s0"
        using st_space_prefix [where body = option_marker_len, OF break(5) n0] by simp
      moreover have "length s0 < length s" using Cons break(1) by simp
      ultimately have f: "stable option_marker_len s0'" using less.hyps break(3) by blast
      from sq_oml_none [OF break(3) n0] have "option_marker_len (dw (LF # s0')) = None" by simp
      with f break(2,4) show ?thesis by (simp add: st_none)
    qed
  qed
qed

text \<open>Step 3 is such a move.\<close>

lemma sq_B3: "sq s (break_before inline_answer_len s)"
proof (induction "length s" arbitrary: s rule: less_induct)
  case less
  show ?case
  proof (cases s)
    case Nil
    then show ?thesis by (simp add: sq_Nil)
  next
    case (Cons c r)
    show ?thesis
    proof (cases "c = LF")
      case True
      with Cons less.hyps [of r] show ?thesis by (simp add: sq_copy)
    next
      case False
      show ?thesis
      proof (cases "inline_answer_len (dw r)")
        case None
        with False Cons less.hyps [of r] show ?thesis by (simp add: bb_none sq_copy)
      next
        case (Some n)
        define d where "d = dw r"
        define K where "K = take n d"
        define u where "u = drop n d"
        from Some have ia: "inline_answer_len d = Some n" by (simp add: d_def)
        from ial_decomp [OF ia] obtain p where
          p: "p = kw_jeongdap \<or> p = kw_dap \<or> p = kw_answer" and st: "starts_ci p d"
          by blast
        from starts_ci_nonempty [OF p st] have ne: "d \<noteq> []" and h: "\<not> is_space (hd d)"
          and hm: "\<not> is_marker (hd d)" and na: "\<not> (is_AD (hd d) \<and> is_marker (hd (tl d)))"
          by simp_all
        have on: "option_marker_len d = None"
        proof (rule ccontr)
          assume "option_marker_len d \<noteq> None"
          then obtain k where "option_marker_len d = Some k" by blast
          with na show False unfolding oml_Some by auto
        qed
        have "length u < length s"
          using length_dropWhile_le [of is_space r] Cons ne ia ial_ext [OF ia]
          by (simp add: u_def d_def)
        then have "sq u (break_before inline_answer_len u)" by (rule less.hyps)
        then have "sq (K @ u) (K @ break_before inline_answer_len u)" by (rule sq_append_same)
        then have q: "sq d (K @ break_before inline_answer_len u)" by (simp add: K_def u_def)
        have "sq (c # tw r @ d) (c # LF # K @ break_before inline_answer_len u)"
          using q False tw_all_space ne h hm on by (rule sq_break)
        moreover have "tw r @ d = r" by (simp add: d_def)
        moreover have "break_before inline_answer_len s = c # LF # K @ break_before inline_answer_len u"
          using False Some Cons by (simp add: bb_some K_def u_def d_def)
        ultimately show ?thesis using Cons by simp
      qed
    qed
  qed
qed

subsection \<open>Step 2 keeps the options on their lines\<close>

lemma st_lf_rest: "stable body (lf_rest s) = stable body s"
  by (induction s) auto

lemma dw_lf_rest: "dw (lf_rest s) = dw s"
  by (induction s) auto

lemma cb_dw: "dw (collapse_blank s) = collapse_blank (dw s)"
proof (induction "length s" arbitrary: s rule: less_induct)
  case less
  show ?case
  proof (cases s)
    case Nil
    then show ?thesis by simp
  next
    case (Cons c r)
    show ?thesis
    proof (cases "is_space c")
      case False
      then have "c \<noteq> LF" by auto
      with False Cons show ?thesis by (simp add: cb_not_LF)
    next
      case True
      show ?thesis
      proof (cases "3 \<le> length (lf_run s)")
        case run: True
        have "dw (collapse_blank (lf_rest s)) = collapse_blank (dw (lf_rest s))"
          using less.hyps [OF lf_rest_shorter [OF run]] .
        then show ?thesis
          by (simp add: cb_run [OF run] dw_lf_rest)
      next
        case False
        with Cons have e: "collapse_blank (c # r) = c # collapse_blank r" by (simp add: cb_copy)
        have "dw (collapse_blank r) = collapse_blank (dw r)"
          using less.hyps [of r] Cons by simp
        with True Cons show ?thesis by (simp add: e)
      qed
    qed
  qed
qed

lemma cb_oml_none:
  assumes "option_marker_len (dw s) = None"
  shows "option_marker_len (dw (collapse_blank s)) = None"
proof (rule ccontr)
  assume "option_marker_len (dw (collapse_blank s)) \<noteq> None"
  then obtain n' where "option_marker_len (dw (collapse_blank s)) = Some n'" by blast
  from oml_fat [OF fat_dw [OF fat_collapse] this] assms show False by simp
qed

lemma cb_stable:
  "stable option_marker_len s \<Longrightarrow> stable option_marker_len (collapse_blank s)"
proof (induction "length s" arbitrary: s rule: less_induct)
  case less
  show ?case
  proof (cases "3 \<le> length (lf_run s)")
    case True
    from less.prems have "stable option_marker_len (lf_rest s)" by (simp add: st_lf_rest)
    from less.hyps [OF lf_rest_shorter [OF True] this] show ?thesis
      by (simp add: cb_run [OF True])
  next
    case norun: False
    show ?thesis
    proof (cases s)
      case Nil
      then show ?thesis by simp
    next
      case (Cons c r)
      with norun have e: "collapse_blank s = c # collapse_blank r" by (simp add: cb_copy)
      show ?thesis
      proof (cases "c = LF")
        case True
        with less.prems Cons have "stable option_marker_len r" by simp
        from less.hyps [OF _ this] Cons have "stable option_marker_len (collapse_blank r)" by simp
        with True show ?thesis by (simp add: e)
      next
        case False
        show ?thesis
        proof (cases "option_marker_len (dw r)")
          case None
          with False less.prems Cons have "stable option_marker_len r" by (simp add: st_none)
          from less.hyps [OF _ this] Cons have "stable option_marker_len (collapse_blank r)" by simp
          with False cb_oml_none [OF None] show ?thesis by (simp add: e st_none)
        next
          case (Some n)
          with False less.prems Cons have t: "tw r = [LF]"
            and st: "stable option_marker_len (drop n (dw r))"
            by (simp_all add: st_some)
          from Some obtain l m rest where d: "dw r = l # m # rest" and l: "is_AD l"
            and m: "is_marker m" and n: "n = 2 + length (tw rest)"
            unfolding oml_Some by blast
          have r: "r = LF # l # m # rest" using tw_dw_split [OF t] d by simp
          from st have st': "stable option_marker_len (dw rest)"
            unfolding d n by (simp add: drop_tw)
          have l': "l \<noteq> LF" using AD_not_space [OF l] by auto
          have m': "m \<noteq> LF" using marker_not_space [OF m] by auto
          define rest' where "rest' = collapse_blank rest"
          have "collapse_blank r = LF # collapse_blank (l # m # rest)"
            unfolding r using l' by (simp add: cb_copy)
          then have cr: "collapse_blank r = LF # l # m # rest'"
            using l' m' by (simp add: cb_not_LF rest'_def)
          have "length (dw rest) < length s"
            using length_dropWhile_le [of is_space rest] Cons r by simp
          from less.hyps [OF this st'] have f: "stable option_marker_len (dw rest')"
            by (simp add: cb_dw rest'_def)
          have dl: "dw (LF # l # m # rest') = l # m # rest'"
            using AD_not_space [OF l] by simp
          have o: "option_marker_len (dw (LF # l # m # rest')) = Some (2 + length (tw rest'))"
            unfolding dl using l m unfolding oml_Some by blast
          have tl: "tw (LF # l # m # rest') = [LF]"
            using AD_not_space [OF l] by simp
          have "stable option_marker_len (c # LF # l # m # rest')
              = (tw (LF # l # m # rest') = [LF]
                 \<and> stable option_marker_len (drop (2 + length (tw rest')) (dw (LF # l # m # rest'))))"
            using False o by (rule st_some)
          also have "\<dots> = stable option_marker_len (dw rest')"
            unfolding tl dl by (simp add: drop_tw)
          finally show ?thesis unfolding e cr using f by simp
        qed
      qed
    qed
  qed
qed

subsection \<open>Carriage returns and no-break spaces\<close>

lemma replace_unit_absent: "c \<notin> set s \<Longrightarrow> replace_unit c r s = s"
  by (induction s) (auto simp: replace_unit_def)

lemma set_replace_unit: "set (replace_unit c r s) \<subseteq> (set s - {c}) \<union> set r"
  by (induction s) (auto simp: replace_unit_def)

lemma bb_set: "set (break_before body s) \<subseteq> insert LF (set s)"
proof (induction "length s" arbitrary: s rule: less_induct)
  case less
  show ?case
  proof (cases s)
    case Nil
    then show ?thesis by simp
  next
    case (Cons c r)
    have ih: "set (break_before body r) \<subseteq> insert LF (set r)"
      using less.hyps [of r] Cons by simp
    show ?thesis
    proof (cases "c = LF")
      case True
      with Cons ih show ?thesis by auto
    next
      case False
      show ?thesis
      proof (cases "body (dw r)")
        case None
        with False Cons ih show ?thesis by (auto simp: bb_none)
      next
        case (Some n)
        define d where "d = dw r"
        have dr: "set d \<subseteq> set r"
          unfolding d_def using set_dropWhileD by fastforce
        have "length (drop n d) < length s"
          using length_dropWhile_le [of is_space r] Cons by (simp add: d_def)
        from less.hyps [OF this] have "set (break_before body (drop n d)) \<subseteq> insert LF (set (drop n d))" .
        moreover have "set (drop n d) \<subseteq> set d" by (rule set_drop_subset)
        moreover have "set (take n d) \<subseteq> set d" by (rule set_take_subset)
        moreover have "break_before body s = c # LF # take n d @ break_before body (drop n d)"
          using False Some Cons by (simp add: bb_some d_def)
        ultimately show ?thesis using dr Cons by auto
      qed
    qed
  qed
qed

lemma cb_set: "set (collapse_blank s) \<subseteq> set s"
proof (induction "length s" arbitrary: s rule: less_induct)
  case less
  show ?case
  proof (cases "3 \<le> length (lf_run s)")
    case True
    have "set (collapse_blank (lf_rest s)) \<subseteq> set (lf_rest s)"
      using less.hyps [OF lf_rest_shorter [OF True]] .
    moreover have "set (lf_rest s) \<subseteq> set s"
      using set_dropWhileD by fastforce
    moreover have "LF \<in> set s"
      using True by (cases s) (auto split: if_splits)
    ultimately show ?thesis by (auto simp: cb_run [OF True])
  next
    case False
    show ?thesis
    proof (cases s)
      case Nil
      then show ?thesis by simp
    next
      case (Cons c r)
      with False have "collapse_blank s = c # collapse_blank r" by (simp add: cb_copy)
      with less.hyps [of r] Cons show ?thesis by auto
    qed
  qed
qed

lemma units_distinct: "CR \<noteq> LF" "NBSP \<noteq> LF" "CR \<noteq> SP" "NBSP \<noteq> SP" "CR \<noteq> NBSP"
  by (simp_all add: CR_def LF_def NBSP_def SP_def)

text \<open>The text \<open>normalizeMcqText\<close> returns, and what it is a fixed point of.\<close>

lemma normalized_clean: "CR \<notin> set (normalizeMcqText raw) \<and> NBSP \<notin> set (normalizeMcqText raw)"
proof -
  define x0 where "x0 = replace_unit NBSP [SP] (replace_unit CR [] raw)"
  have "set (replace_unit CR [] raw) \<subseteq> set raw - {CR}"
    using set_replace_unit [of CR "[]" raw] by simp
  moreover have "set x0 \<subseteq> (set (replace_unit CR [] raw) - {NBSP}) \<union> {SP}"
    unfolding x0_def using set_replace_unit [of NBSP "[SP]"] by simp
  ultimately have 0: "CR \<notin> set x0 \<and> NBSP \<notin> set x0"
    using units_distinct by auto
  have "set (normalizeMcqText raw) \<subseteq> insert LF (set x0)"
    unfolding normalizeMcqText_def x0_def [symmetric]
    using bb_set [of inline_answer_len "collapse_blank (break_before option_marker_len x0)"]
      cb_set [of "break_before option_marker_len x0"] bb_set [of option_marker_len x0]
    by blast
  with 0 units_distinct show ?thesis by auto
qed

lemma normalized_options: "stable option_marker_len (normalizeMcqText raw)"
  unfolding normalizeMcqText_def
  by (rule sq_stable [OF cb_stable [OF stable_B1] sq_B3])

lemma normalized_no_lf3: "\<not> lf3 (normalizeMcqText raw)"
  unfolding normalizeMcqText_def
  by (rule sq_lf3 [OF sq_B3 cb_no_lf3])

lemma normalized_answers: "stable inline_answer_len (normalizeMcqText raw)"
  unfolding normalizeMcqText_def by (rule stable_B3)

text \<open>
  C5 (idempotence). For every string \<open>x\<close>, \<open>normalizeMcqText (normalizeMcqText x)\<close> is
  \<open>normalizeMcqText x\<close>: the text returned has neither carriage return nor no-break
  space, every option marker and every inline answer the scans find in it already
  stands behind exactly one line feed, and it has no run of three line feeds, so that
  each of the steps leaves it as it is.
\<close>

theorem normalize_idempotent: "normalizeMcqText (normalizeMcqText raw) = normalizeMcqText raw"
proof -
  define y where "y = normalizeMcqText raw"
  have 0: "replace_unit NBSP [SP] (replace_unit CR [] y) = y"
    using normalized_clean [of raw] by (simp add: replace_unit_absent y_def)
  have 1: "break_before option_marker_len y = y"
    unfolding y_def using normalized_options by (rule stable_fixed)
  have 2: "collapse_blank y = y"
    unfolding y_def using normalized_no_lf3 by (rule no_lf3_fixed)
  have 3: "break_before inline_answer_len y = y"
    unfolding y_def using normalized_answers by (rule stable_fixed)
  have "normalizeMcqText y = y"
    by (simp only: normalizeMcqText_def [of y] 0 1 2 3)
  then show ?thesis by (simp only: y_def)
qed

end
